theory Spec2Isabelle
  imports Complex_Main "HOL-Library.Multiset" "HOL-Library.Sublist"
begin

section \<open>Layout reconstruction of src/server.py (mode pdf-to-excel)\<close>

text \<open>
  The embedding follows \<^verbatim>\<open>src/server.py\<close>: the geometry helpers
  \<^verbatim>\<open>_cluster_positions\<close>, \<^verbatim>\<open>_nearest_index\<close>, \<^verbatim>\<open>_bbox_iou\<close>, the table
  retention of \<^verbatim>\<open>_extract_tables_with_fallback\<close> and \<^verbatim>\<open>_table_shape_quality\<close>,
  the fragment merger \<^verbatim>\<open>_merge_fragmented_words\<close>, and the per-page body of the
  \<^verbatim>\<open>pdf_to_excel\<close> branch of \<^verbatim>\<open>convert_file\<close>.

  Python floats are idealised as the real numbers (no rounding, no NaN, no infinities);
  Python strings are lists of 8-bit characters read as Latin-1 code points.
\<close>

subsection \<open>Geometry: intersection over union\<close>

type_synonym bbox = "real \<times> real \<times> real \<times> real"

text \<open>\<^verbatim>\<open>_bbox_iou\<close>, lines 277-289.\<close>

definition bbox_iou :: "bbox \<Rightarrow> bbox \<Rightarrow> real" where
  "bbox_iou a b =
     (case a of (ax0, ay0, ax1, ay1) \<Rightarrow>
      case b of (bx0, by0, bx1, by1) \<Rightarrow>
        let ix0 = max ax0 bx0; iy0 = max ay0 by0;
            ix1 = min ax1 bx1; iy1 = min ay1 by1;
            iw = max 0 (ix1 - ix0); ih = max 0 (iy1 - iy0);
            inter = iw * ih
        in if inter \<le> 0 then 0
           else
             let area_a = max 0 ((ax1 - ax0) * (ay1 - ay0));
                 area_b = max 0 ((bx1 - bx0) * (by1 - by0));
                 union = area_a + area_b - inter
             in if union > 0 then inter / union else 0)"

text \<open>The vocabulary of the claims about boxes.\<close>

definition non_degenerate :: "bbox \<Rightarrow> bool" where
  "non_degenerate a = (case a of (x0, y0, x1, y1) \<Rightarrow> x0 < x1 \<and> y0 < y1)"

definition bbox_area :: "bbox \<Rightarrow> real" where
  "bbox_area a = (case a of (x0, y0, x1, y1) \<Rightarrow> (x1 - x0) * (y1 - y0))"

definition no_overlap :: "bbox \<Rightarrow> bbox \<Rightarrow> bool" where
  "no_overlap a b =
     (case a of (ax0, ay0, ax1, ay1) \<Rightarrow>
      case b of (bx0, by0, bx1, by1) \<Rightarrow>
        ax1 \<le> bx0 \<or> bx1 \<le> ax0 \<or> ay1 \<le> by0 \<or> by1 \<le> ay0)"

subsection \<open>Geometry: one-dimensional clustering\<close>

text \<open>\<^verbatim>\<open>sum(c) / len(c)\<close> of a cluster.\<close>

definition mean :: "real list \<Rightarrow> real" where
  "mean c = sum_list c / real (length c)"

text \<open>
  \<^verbatim>\<open>_cluster_positions\<close>, lines 251-261. One round of the loop: the value joins the last
  cluster (\<^verbatim>\<open>clusters[-1]\<close>) when it is within the tolerance of that cluster's last
  value, and opens a new cluster otherwise.
\<close>

definition cluster_step :: "real \<Rightarrow> real list list \<Rightarrow> real \<Rightarrow> real list list" where
  "cluster_step tolerance clusters v =
     (if \<bar>v - last (last clusters)\<bar> \<le> tolerance
      then butlast clusters @ [last clusters @ [v]]
      else clusters @ [[v]])"

text \<open>The list \<^verbatim>\<open>clusters\<close> when the loop ends.\<close>

definition cluster_groups :: "real list \<Rightarrow> real \<Rightarrow> real list list" where
  "cluster_groups values tolerance =
     (if values = [] then []
      else let sorted_values = sort values
           in foldl (cluster_step tolerance) [[sorted_values ! 0]] (tl sorted_values))"

definition cluster_positions :: "real list \<Rightarrow> real \<Rightarrow> real list" where
  "cluster_positions values tolerance =
     (if values = [] then []
      else map mean (cluster_groups values tolerance))"

text \<open>
  The reference algorithm, in the words of the specification of \<^verbatim>\<open>cluster_1d\<close>: over the
  values sorted ascending, a new cluster starts whenever the next value differs from the
  last accepted value of the current cluster by more than the tolerance; the result is
  the mean of each cluster.
\<close>

fun greedy_chain :: "real \<Rightarrow> real list \<Rightarrow> real list \<Rightarrow> real list list" where
  "greedy_chain tolerance cur [] = [cur]"
| "greedy_chain tolerance cur (v # vs) =
     (if \<bar>v - last cur\<bar> > tolerance
      then cur # greedy_chain tolerance [v] vs
      else greedy_chain tolerance (cur @ [v]) vs)"

definition cluster_1d :: "real list \<Rightarrow> real \<Rightarrow> real list" where
  "cluster_1d values tolerance =
     (case sort values of
        [] \<Rightarrow> []
      | v # vs \<Rightarrow> map mean (greedy_chain tolerance [v] vs))"

subsection \<open>Python string predicates\<close>

text \<open>
  \<^verbatim>\<open>str.isspace\<close>, \<^verbatim>\<open>str.strip\<close> and \<^verbatim>\<open>str.isalpha\<close> on code points below 256:
  the white space of Python is 9 to 13, 28 to 32, 133 and 160; its letters are the
  ASCII letters, 170, 181, 186, and 192 to 255 without 215 and 247.
\<close>

definition isspace :: "char \<Rightarrow> bool" where
  "isspace c =
     (let n = (of_char c :: nat)
      in (9 \<le> n \<and> n \<le> 13) \<or> (28 \<le> n \<and> n \<le> 32) \<or> n = 133 \<or> n = 160)"

definition strip :: "string \<Rightarrow> string" where
  "strip s = rev (dropWhile isspace (rev (dropWhile isspace s)))"

definition isalpha_char :: "char \<Rightarrow> bool" where
  "isalpha_char c =
     (let n = (of_char c :: nat)
      in (65 \<le> n \<and> n \<le> 90) \<or> (97 \<le> n \<and> n \<le> 122) \<or> n = 170 \<or> n = 181 \<or> n = 186
         \<or> (192 \<le> n \<and> n \<le> 214) \<or> (216 \<le> n \<and> n \<le> 246) \<or> (248 \<le> n \<and> n \<le> 255))"

text \<open>\<^verbatim>\<open>"".isalpha()\<close> is false.\<close>

definition isalpha :: "string \<Rightarrow> bool" where
  "isalpha s = (s \<noteq> [] \<and> list_all isalpha_char s)"

subsection \<open>Table detection and retention\<close>

text \<open>
  A table found by \<^verbatim>\<open>page.find_tables\<close>: its \<^verbatim>\<open>bbox\<close> and the result of \<^verbatim>\<open>extract()\<close>,
  rows of cells, a cell being a string or \<^verbatim>\<open>None\<close>; \<^verbatim>\<open>extract()\<close> itself may give
  \<^verbatim>\<open>None\<close>.
\<close>

type_synonym cell = "string option"

record table =
  bbox :: bbox
  extracted :: "cell list list option"

text \<open>
  \<^verbatim>\<open>_extract_tables_with_fallback\<close>, lines 292-313. The body of the inner loop: the
  state is \<^verbatim>\<open>(found, seen_bboxes)\<close>.
\<close>

definition dedup_step :: "table list \<times> bbox list \<Rightarrow> table \<Rightarrow> table list \<times> bbox list" where
  "dedup_step st t =
     (case st of (found, seen_bboxes) \<Rightarrow>
        let duplicate = list_ex (\<lambda>sb. bbox_iou (bbox t) sb > 0.75) seen_bboxes
        in if duplicate then (found, seen_bboxes)
           else (found @ [t], seen_bboxes @ [bbox t]))"

text \<open>
  What one strategy contributes: \<^verbatim>\<open>None\<close> stands for a call of \<^verbatim>\<open>find_tables\<close> that
  raised or returned a false value, both of which give no table.
\<close>

definition strategy_tables :: "table list option \<Rightarrow> table list" where
  "strategy_tables r = (case r of None \<Rightarrow> [] | Some tables \<Rightarrow> tables)"

text \<open>
  The argument lists, in the order of \<^verbatim>\<open>configs\<close> (ruled lines first, text alignment
  second), what \<^verbatim>\<open>find_tables\<close> gave for each strategy.
\<close>

definition extract_tables_with_fallback :: "table list option list \<Rightarrow> table list" where
  "extract_tables_with_fallback results =
     fst (foldl (\<lambda>st r. foldl dedup_step st (strategy_tables r)) ([], []) results)"

text \<open>\<^verbatim>\<open>_table_shape_quality\<close>, lines 316-324.\<close>

definition cell_non_empty :: "cell \<Rightarrow> bool" where
  "cell_non_empty c = (case c of None \<Rightarrow> False | Some s \<Rightarrow> strip s \<noteq> [])"

definition table_shape_quality :: "cell list list \<Rightarrow> nat \<times> nat \<times> nat" where
  "table_shape_quality data =
     (let rows = length data;
          cols = (case map length data of [] \<Rightarrow> 0 | l # ls \<Rightarrow> foldl max l ls);
          non_empty = length (filter cell_non_empty (concat data))
      in (rows, cols, non_empty))"

text \<open>
  \<^verbatim>\<open>convert_file\<close>, lines 809-819: \<^verbatim>\<open>data = t.extract() or []\<close>, the quality gate, and
  the lists \<^verbatim>\<open>table_objs\<close> and \<^verbatim>\<open>table_bboxes\<close>.
\<close>

definition table_data :: "table \<Rightarrow> cell list list" where
  "table_data t = (case extracted t of None \<Rightarrow> [] | Some d \<Rightarrow> d)"

definition weak_table :: "table \<Rightarrow> bool" where
  "weak_table t =
     (case table_shape_quality (table_data t) of
        (rows, cols, non_empty) \<Rightarrow> rows < 2 \<or> cols < 2 \<or> non_empty < 4)"

record table_obj =
  obj_bbox :: bbox
  obj_data :: "cell list list"

fun table_objs :: "table list \<Rightarrow> table_obj list" where
  "table_objs [] = []"
| "table_objs (t # raw_tables) =
     (if weak_table t then table_objs raw_tables
      else \<lparr>obj_bbox = bbox t, obj_data = table_data t\<rparr> # table_objs raw_tables)"

definition table_bboxes :: "table list \<Rightarrow> bbox list" where
  "table_bboxes raw_tables = map obj_bbox (table_objs raw_tables)"

subsection \<open>Fragment merger\<close>

text \<open>
  A free word as \<^verbatim>\<open>convert_file\<close> builds it (line 840): the keys \<^verbatim>\<open>x0\<close>, \<^verbatim>\<open>x1\<close>,
  \<^verbatim>\<open>y0\<close> and \<^verbatim>\<open>text\<close> (here \<open>wtext\<close>).
\<close>

record span =
  x0 :: real
  x1 :: real
  y0 :: real
  wtext :: string

text \<open>\<^verbatim>\<open>_merge_fragmented_words\<close>, lines 327-347.\<close>

definition should_merge :: "span \<Rightarrow> span \<Rightarrow> bool" where
  "should_merge prev w =
     (let gap = x0 w - x1 prev; prev_txt = wtext prev; cur_txt = wtext w
      in gap \<le> 12 \<and> (length prev_txt \<le> 3 \<or> length cur_txt \<le> 3
                      \<or> (isalpha prev_txt \<and> isalpha cur_txt)))"

definition joiner :: "string \<Rightarrow> string \<Rightarrow> string" where
  "joiner prev_txt cur_txt = (if isalpha prev_txt \<and> isalpha cur_txt then [] else '' '')"

definition absorb :: "span \<Rightarrow> span \<Rightarrow> span" where
  "absorb prev w =
     prev\<lparr>wtext := strip (wtext prev @ joiner (wtext prev) (wtext w) @ wtext w), x1 := x1 w\<rparr>"

definition merge_step :: "span list \<Rightarrow> span \<Rightarrow> span list" where
  "merge_step merged w =
     (let prev = last merged
      in if should_merge prev w then butlast merged @ [absorb prev w]
         else merged @ [w])"

definition merge_fragmented_words :: "span list \<Rightarrow> span list" where
  "merge_fragmented_words words =
     (if words = [] then words
      else foldl merge_step [words ! 0] (tl words))"

text \<open>
  The candidates of all strategies in order, and the accepted ones among a list of
  candidates: the vocabulary of the retention claim.
\<close>

definition candidates :: "table list option list \<Rightarrow> table list" where
  "candidates results = concat (map strategy_tables results)"

definition dedup :: "table list \<Rightarrow> table list" where
  "dedup ts = fst (foldl dedup_step ([], []) ts)"

text \<open>
  A text as \<^verbatim>\<open>convert_file\<close> hands it to the merger (lines 834-836): stripped and not
  empty, so it begins and ends with a character that is not white space.
\<close>

definition clean :: "string \<Rightarrow> bool" where
  "clean s = (s \<noteq> [] \<and> \<not> isspace (hd s) \<and> \<not> isspace (last s))"

definition visible :: "string \<Rightarrow> string" where
  "visible s = filter (\<lambda>c. \<not> isspace c) s"

definition texts :: "span list \<Rightarrow> string" where
  "texts ws = concat (map wtext ws)"

subsection \<open>Nearest center\<close>

text \<open>\<^verbatim>\<open>_nearest_index\<close>, lines 264-274. The loop state is \<^verbatim>\<open>(best_idx, best_dist)\<close>.\<close>

definition nearest_step :: "real \<Rightarrow> real list \<Rightarrow> nat \<times> real \<Rightarrow> nat \<Rightarrow> nat \<times> real" where
  "nearest_step value centers st i =
     (case st of (best_idx, best_dist) \<Rightarrow>
        let d = \<bar>value - centers ! i\<bar>
        in if d < best_dist then (i, d) else (best_idx, best_dist))"

definition nearest_index :: "real \<Rightarrow> real list \<Rightarrow> nat" where
  "nearest_index value centers =
     (if centers = [] then 0
      else fst (foldl (nearest_step value centers) (0, \<bar>value - centers ! 0\<bar>)
                  [1 ..< length centers]))"

subsection \<open>Layout composer: the page loop of convert_file\<close>

text \<open>
  A word of \<^verbatim>\<open>page.get_text("words")\<close>: the box \<^verbatim>\<open>w[0..3]\<close> and the text \<^verbatim>\<open>w[4]\<close>.
\<close>

record page_word =
  w_x0 :: real
  w_y0 :: real
  w_x1 :: real
  w_y1 :: real
  w_text :: string

text \<open>The closure \<^verbatim>\<open>_inside_table\<close>, lines 821-825, with the list it captures.\<close>

definition inside_table :: "bbox list \<Rightarrow> real \<Rightarrow> real \<Rightarrow> bool" where
  "inside_table boxes x y =
     list_ex (\<lambda>b. case b of (bx0, by0, bx1, by1) \<Rightarrow>
                bx0 - 1 \<le> x \<and> x \<le> bx1 + 1 \<and> by0 - 1 \<le> y \<and> y \<le> by1 + 1) boxes"

text \<open>The loop over the words, lines 831-840, that fills \<^verbatim>\<open>free_words\<close>.\<close>

fun free_words :: "bbox list \<Rightarrow> page_word list \<Rightarrow> span list" where
  "free_words boxes [] = []"
| "free_words boxes (w # words) =
     (let txt = strip (w_text w)
      in if txt = [] then free_words boxes words
         else
           let cx = (w_x0 w + w_x1 w) / 2; cy = (w_y0 w + w_y1 w) / 2
           in if inside_table boxes cx cy then free_words boxes words
              else \<lparr>x0 = w_x0 w, x1 = w_x1 w, y0 = w_y0 w, wtext = txt\<rparr>
                     # free_words boxes words)"

text \<open>
  \<^verbatim>\<open>lines_map.setdefault(ridx, []).append(w)\<close> on a dictionary kept in insertion
  order, which is the order \<^verbatim>\<open>lines_map.items()\<close> walks.
\<close>

fun setdefault_append ::
  "nat \<Rightarrow> span \<Rightarrow> (nat \<times> span list) list \<Rightarrow> (nat \<times> span list) list" where
  "setdefault_append ridx w [] = [(ridx, [w])]"
| "setdefault_append ridx w ((k, line_words) # m) =
     (if k = ridx then (k, line_words @ [w]) # m
      else (k, line_words) # setdefault_append ridx w m)"

definition lines_map :: "real list \<Rightarrow> span list \<Rightarrow> (nat \<times> span list) list" where
  "lines_map y_centers free =
     foldl (\<lambda>m w. setdefault_append (nearest_index (y0 w) y_centers) w m) [] free"

text \<open>
  The elements of a page: \<^verbatim>\<open>{"kind": "table", "y", "table"}\<close> and
  \<^verbatim>\<open>{"kind": "line", "y", "spans"}\<close>.
\<close>

datatype element = Table real table_obj | Line real "span list"

fun el_y :: "element \<Rightarrow> real" where
  "el_y (Table y t) = y"
| "el_y (Line y spans) = y"

fun is_table :: "element \<Rightarrow> bool" where
  "is_table (Table y t) = True"
| "is_table (Line y spans) = False"

datatype error = IndexError

definition bbox_top :: "bbox \<Rightarrow> real" where
  "bbox_top b = (case b of (bx0, by0, bx1, by1) \<Rightarrow> by0)"

text \<open>Lines 827-829.\<close>

definition table_elements :: "table_obj list \<Rightarrow> element list" where
  "table_elements objs = map (\<lambda>t. Table (bbox_top (obj_bbox t)) t) objs"

text \<open>
  Lines 848-851; \<^verbatim>\<open>y_centers[ridx]\<close> raises \<^verbatim>\<open>IndexError\<close> out of range, the sort of a
  line's words by \<^verbatim>\<open>x0\<close> is stable.
\<close>

fun line_elements :: "real list \<Rightarrow> (nat \<times> span list) list \<Rightarrow> error + element list" where
  "line_elements y_centers [] = Inr []"
| "line_elements y_centers ((ridx, line_words) # m) =
     (if ridx < length y_centers
      then (case line_elements y_centers m of
              Inl e \<Rightarrow> Inl e
            | Inr els \<Rightarrow>
                Inr (Line (y_centers ! ridx) (merge_fragmented_words (sort_key x0 line_words))
                       # els))
      else Inl IndexError)"

text \<open>Lines 809-853: the list \<^verbatim>\<open>elements\<close> after the stable sort by \<^verbatim>\<open>y\<close>.\<close>

definition page_elements :: "table list \<Rightarrow> page_word list \<Rightarrow> error + element list" where
  "page_elements raw_tables words =
     (let elements = table_elements (table_objs raw_tables);
          free = free_words (table_bboxes raw_tables) words
      in if free = [] then Inr (sort_key el_y elements)
         else
           let y_centers = cluster_positions (map y0 free) 3.2
           in case line_elements y_centers (lines_map y_centers free) of
                Inl e \<Rightarrow> Inl e
              | Inr lines \<Rightarrow> Inr (sort_key el_y (elements @ lines)))"

subsection \<open>Grid writer\<close>

text \<open>
  The cell values of a worksheet, by row and column (both from 1); a cell may exist
  without a value. Fonts, alignment, borders and column widths are left out.
\<close>

type_synonym sheet = "nat \<times> nat \<rightharpoonup> string option"

text \<open>Lines 860-873, one line element.\<close>

fun write_spans :: "nat \<Rightarrow> nat \<Rightarrow> span list \<Rightarrow> sheet \<Rightarrow> sheet" where
  "write_spans row col [] ws = ws"
| "write_spans row col (sp # spans) ws =
     (let ws' = ws((row, col) \<mapsto> Some (wtext sp));
          col' = col + 1;
          col'' = (case spans of
                     [] \<Rightarrow> col'
                   | nxt # _ \<Rightarrow> if x0 nxt - x1 sp > 80 then col' + 1 else col')
      in write_spans row col'' spans ws')"

text \<open>Lines 875-884, one table element.\<close>

fun write_row :: "nat \<Rightarrow> nat \<Rightarrow> cell list \<Rightarrow> sheet \<Rightarrow> sheet" where
  "write_row row cidx [] ws = ws"
| "write_row row cidx (raw_val # row_vals) ws =
     write_row row (cidx + 1) row_vals (ws((row, cidx) \<mapsto> map_option strip raw_val))"

fun write_rows :: "nat \<Rightarrow> cell list list \<Rightarrow> sheet \<Rightarrow> sheet" where
  "write_rows row [] ws = ws"
| "write_rows row (row_vals # data) ws = write_rows (row + 1) data (write_row row 1 row_vals ws)"

definition write_element :: "sheet \<times> nat \<Rightarrow> element \<Rightarrow> sheet \<times> nat" where
  "write_element st el =
     (case st of (ws, row_cursor) \<Rightarrow>
        (case el of
           Line y spans \<Rightarrow> (write_spans row_cursor 1 spans ws, row_cursor + 1)
         | Table y t \<Rightarrow>
             (write_rows row_cursor (obj_data t) ws,
              row_cursor + max 1 (length (obj_data t)) + 1)))"

definition sentinel :: string where
  "sentinel = ''No extractable text found on this page.''"

text \<open>
  One round of the page loop, lines 804-899: the tables that the strategies found,
  the words of the page, and the sheet that results.
\<close>

definition page_sheet :: "table list option list \<Rightarrow> page_word list \<Rightarrow> error + sheet" where
  "page_sheet results words =
     (let raw_tables = extract_tables_with_fallback results
      in case page_elements raw_tables words of
           Inl e \<Rightarrow> Inl e
         | Inr elements \<Rightarrow>
             if elements = [] then Inr (Map.empty((1, 1) \<mapsto> Some sentinel))
             else Inr (fst (foldl write_element (Map.empty, 1) elements)))"

text \<open>
  The free words whose nearest center is the center number \<open>k\<close>: the vocabulary of the
  partition claim.
\<close>

definition group_of :: "real list \<Rightarrow> span list \<Rightarrow> nat \<Rightarrow> span list" where
  "group_of y_centers free k = filter (\<lambda>w. nearest_index (y0 w) y_centers = k) free"

text \<open>
  The line elements of a page, given its free words: one per entry of \<^verbatim>\<open>lines_map\<close>,
  in the order of the entries.
\<close>

definition lines_of :: "span list \<Rightarrow> element list" where
  "lines_of free =
     (let y_centers = cluster_positions (map y0 free) 3.2
      in map (\<lambda>(ridx, line_words).
                Line (y_centers ! ridx) (merge_fragmented_words (sort_key x0 line_words)))
           (lines_map y_centers free))"

text \<open>
  The vocabulary of the claims about a whole page: the span a word becomes, the boxes of
  the retained tables, the number of retained boxes (expanded by 1) that hold the
  center of a word, the free words, the line groups, and the number of line groups
  that hold the span of a word.
\<close>

definition to_span :: "page_word \<Rightarrow> span" where
  "to_span w = \<lparr>x0 = w_x0 w, x1 = w_x1 w, y0 = w_y0 w, wtext = strip (w_text w)\<rparr>"

definition retained_boxes :: "table list option list \<Rightarrow> bbox list" where
  "retained_boxes results = table_bboxes (extract_tables_with_fallback results)"

definition regions_holding :: "table list option list \<Rightarrow> page_word \<Rightarrow> nat" where
  "regions_holding results w =
     length (filter (\<lambda>b. inside_table [b] ((w_x0 w + w_x1 w) / 2) ((w_y0 w + w_y1 w) / 2))
               (retained_boxes results))"

definition page_free :: "table list option list \<Rightarrow> page_word list \<Rightarrow> span list" where
  "page_free results words = free_words (retained_boxes results) words"

definition page_lines_map ::
  "table list option list \<Rightarrow> page_word list \<Rightarrow> (nat \<times> span list) list" where
  "page_lines_map results words =
     (let free = page_free results words
      in lines_map (cluster_positions (map y0 free) 3.2) free)"

definition lines_holding :: "table list option list \<Rightarrow> page_word list \<Rightarrow> page_word \<Rightarrow> nat" where
  "lines_holding results words w =
     length (filter (\<lambda>(k, g). to_span w \<in> set g) (page_lines_map results words))"

text \<open>
  The partition as the specification words it: the word is in exactly one line and in
  no retained region, or in no line and in exactly one retained region.
\<close>

definition accounted_once :: "table list option list \<Rightarrow> page_word list \<Rightarrow> page_word \<Rightarrow> bool" where
  "accounted_once results words w =
     ((lines_holding results words w = 1 \<and> regions_holding results w = 0)
      \<or> (lines_holding results words w = 0 \<and> regions_holding results w = 1))"

subsection \<open>Facts about intersection over union\<close>

lemma inter_le_area:
  fixes ax0 ay0 ax1 ay1 bx0 by0 bx1 by1 :: real
  assumes "0 < (min ax1 bx1 - max ax0 bx0)" and "0 < (min ay1 by1 - max ay0 by0)"
  shows "(min ax1 bx1 - max ax0 bx0) * (min ay1 by1 - max ay0 by0)
           \<le> (ax1 - ax0) * (ay1 - ay0)"
proof -
  have w: "min ax1 bx1 - max ax0 bx0 \<le> ax1 - ax0" by linarith
  have h: "min ay1 by1 - max ay0 by0 \<le> ay1 - ay0" by linarith
  from assms w h show ?thesis
    by (intro mult_mono) linarith+
qed

lemma iou_unfold:
  fixes ax0 ay0 ax1 ay1 bx0 by0 bx1 by1 :: real
  assumes "iw = min ax1 bx1 - max ax0 bx0" and "ih = min ay1 by1 - max ay0 by0"
     and "aa = (ax1 - ax0) * (ay1 - ay0)" and "ab = (bx1 - bx0) * (by1 - by0)"
  shows "bbox_iou (ax0, ay0, ax1, ay1) (bx0, by0, bx1, by1) =
           (if max 0 iw * max 0 ih \<le> 0 then 0
            else if max 0 aa + max 0 ab - max 0 iw * max 0 ih > 0
                 then max 0 iw * max 0 ih / (max 0 aa + max 0 ab - max 0 iw * max 0 ih)
                 else 0)"
  unfolding bbox_iou_def Let_def prod.case assms by (rule refl)

lemma iou_overlap:
  fixes ax0 ay0 ax1 ay1 bx0 by0 bx1 by1 :: real
  assumes iw: "iw = min ax1 bx1 - max ax0 bx0" and ih: "ih = min ay1 by1 - max ay0 by0"
      and aa: "aa = (ax1 - ax0) * (ay1 - ay0)" and ab: "ab = (bx1 - bx0) * (by1 - by0)"
      and pw: "0 < iw" and ph: "0 < ih"
  shows "bbox_iou (ax0, ay0, ax1, ay1) (bx0, by0, bx1, by1) = iw * ih / (aa + ab - iw * ih)"
    and "0 < iw * ih" and "iw * ih \<le> aa" and "iw * ih \<le> ab"
proof -
  show pos: "0 < iw * ih" using pw ph by simp
  show la: "iw * ih \<le> aa"
    using pw ph unfolding iw ih aa by (intro inter_le_area) simp_all
  show lb: "iw * ih \<le> ab"
    using pw ph inter_le_area [of bx1 ax1 bx0 ax0 by1 ay1 by0 ay0]
    unfolding iw ih ab by (simp add: min.commute max.commute)
  have m: "max 0 iw = iw" "max 0 ih = ih" "max 0 aa = aa" "max 0 ab = ab"
    using pw ph pos la lb by linarith+
  have "\<not> iw * ih \<le> 0" "aa + ab - iw * ih > 0" using pos la lb by linarith+
  then show "bbox_iou (ax0, ay0, ax1, ay1) (bx0, by0, bx1, by1) = iw * ih / (aa + ab - iw * ih)"
    unfolding iou_unfold [OF iw ih aa ab] m by (simp only: if_False if_True)
qed

lemma iou_apart:
  fixes ax0 ay0 ax1 ay1 bx0 by0 bx1 by1 :: real
  assumes "min ax1 bx1 - max ax0 bx0 \<le> 0 \<or> min ay1 by1 - max ay0 by0 \<le> 0"
  shows "bbox_iou (ax0, ay0, ax1, ay1) (bx0, by0, bx1, by1) = 0"
proof -
  define iw where "iw = min ax1 bx1 - max ax0 bx0"
  define ih where "ih = min ay1 by1 - max ay0 by0"
  have "max 0 iw = 0 \<or> max 0 ih = 0" using assms unfolding iw_def ih_def by linarith
  then have "max 0 iw * max 0 ih \<le> 0" by auto
  then show ?thesis
    unfolding iou_unfold [OF iw_def ih_def refl refl] by (simp only: if_True)
qed

lemma iou_range: "0 \<le> bbox_iou a b \<and> bbox_iou a b \<le> 1"
proof -
  obtain ax0 ay0 ax1 ay1 where a: "a = (ax0, ay0, ax1, ay1)" by (cases a) auto
  obtain bx0 by0 bx1 by1 where b: "b = (bx0, by0, bx1, by1)" by (cases b) auto
  define iw where "iw = min ax1 bx1 - max ax0 bx0"
  define ih where "ih = min ay1 by1 - max ay0 by0"
  define aa where "aa = (ax1 - ax0) * (ay1 - ay0)"
  define ab where "ab = (bx1 - bx0) * (by1 - by0)"
  show ?thesis
  proof (cases "0 < iw \<and> 0 < ih")
    case True
    then have pw: "0 < iw" and ph: "0 < ih" by simp_all
    note f = iou_overlap [OF iw_def ih_def aa_def ab_def pw ph]
    have u: "0 < aa + ab - iw * ih" "iw * ih \<le> aa + ab - iw * ih"
      using f(2,3,4) by linarith+
    have "0 \<le> iw * ih / (aa + ab - iw * ih)" using f(2) u(1) by simp
    moreover have "iw * ih / (aa + ab - iw * ih) \<le> 1" using u by simp
    ultimately show ?thesis unfolding a b f(1) by simp
  next
    case False
    then have "iw \<le> 0 \<or> ih \<le> 0" by linarith
    then have "bbox_iou a b = 0"
      unfolding a b iw_def ih_def by (rule iou_apart)
    then show ?thesis by simp
  qed
qed

lemma iou_self: "non_degenerate a \<Longrightarrow> bbox_iou a a = 1"
proof -
  assume nd: "non_degenerate a"
  obtain x0 y0 x1 y1 where a: "a = (x0, y0, x1, y1)" by (cases a) auto
  define w where "w = x1 - x0"
  define h where "h = y1 - y0"
  have pw: "0 < w" and ph: "0 < h" using nd unfolding a non_degenerate_def w_def h_def by simp_all
  have iw: "w = min x1 x1 - max x0 x0" and ih: "h = min y1 y1 - max y0 y0"
    unfolding w_def h_def by simp_all
  have aa: "w * h = (x1 - x0) * (y1 - y0)" unfolding w_def h_def by simp
  note f = iou_overlap [OF iw ih aa aa pw ph]
  have "w * h + w * h - w * h = w * h" by simp
  moreover have "w * h \<noteq> 0" using pw ph by simp
  ultimately have "w * h / (w * h + w * h - w * h) = 1" by simp
  then show ?thesis unfolding a f(1) .
qed

lemma iou_no_overlap: "no_overlap a b \<Longrightarrow> bbox_iou a b = 0"
proof -
  assume no: "no_overlap a b"
  obtain ax0 ay0 ax1 ay1 where a: "a = (ax0, ay0, ax1, ay1)" by (cases a) auto
  obtain bx0 by0 bx1 by1 where b: "b = (bx0, by0, bx1, by1)" by (cases b) auto
  have "ax1 \<le> bx0 \<or> bx1 \<le> ax0 \<or> ay1 \<le> by0 \<or> by1 \<le> ay0"
    using no unfolding a b no_overlap_def by simp
  then have "min ax1 bx1 - max ax0 bx0 \<le> 0 \<or> min ay1 by1 - max ay0 by0 \<le> 0"
    by linarith
  then show ?thesis unfolding a b by (rule iou_apart)
qed

lemma iou_flat: "bbox_area a \<le> 0 \<or> bbox_area b \<le> 0 \<Longrightarrow> bbox_iou a b = 0"
proof -
  assume flat: "bbox_area a \<le> 0 \<or> bbox_area b \<le> 0"
  obtain ax0 ay0 ax1 ay1 where a: "a = (ax0, ay0, ax1, ay1)" by (cases a) auto
  obtain bx0 by0 bx1 by1 where b: "b = (bx0, by0, bx1, by1)" by (cases b) auto
  define iw where "iw = min ax1 bx1 - max ax0 bx0"
  define ih where "ih = min ay1 by1 - max ay0 by0"
  have "\<not> (0 < iw \<and> 0 < ih)"
  proof
    assume h: "0 < iw \<and> 0 < ih"
    then have pw: "0 < iw" and ph: "0 < ih" by simp_all
    note f = iou_overlap [OF iw_def ih_def refl refl pw ph]
    have "0 < (ax1 - ax0) * (ay1 - ay0)" "0 < (bx1 - bx0) * (by1 - by0)"
      using f(2,3,4) by linarith+
    with flat show False unfolding a b bbox_area_def by simp
  qed
  then have "iw \<le> 0 \<or> ih \<le> 0" by linarith
  then show ?thesis unfolding a b iw_def ih_def by (rule iou_apart)
qed

text \<open>
  Claim C8. The intersection over union of any two boxes lies between 0 and 1; a box
  of positive width and height has intersection over union 1 with itself; and the
  result is 0 whenever the two boxes do not overlap or one of them has an area that
  is not positive.
\<close>

theorem bbox_iou_postconditions:
  "0 \<le> bbox_iou a b \<and> bbox_iou a b \<le> 1
   \<and> (non_degenerate a \<longrightarrow> bbox_iou a a = 1)
   \<and> (no_overlap a b \<or> bbox_area a \<le> 0 \<or> bbox_area b \<le> 0 \<longrightarrow> bbox_iou a b = 0)"
  using iou_range [of a b] iou_self [of a] iou_no_overlap [of a b] iou_flat [of a b]
  by blast

theorem bbox_iou_postconditions_witness:
  "non_degenerate (0, 0, 2, 2)
   \<and> (no_overlap (0, 0, 2, 2) (5, 5, 6, 6) \<or> bbox_area (0, 0, 2, 2) \<le> 0
        \<or> bbox_area (5, 5, 6, 6) \<le> 0)
   \<and> bbox_iou (0, 0, 2, 2) (0, 0, 2, 2) = 1
   \<and> bbox_iou (0, 0, 2, 2) (5, 5, 6, 6) = 0"
  using bbox_iou_postconditions [of "(0, 0, 2, 2)" "(5, 5, 6, 6)"]
  by (simp add: non_degenerate_def no_overlap_def)

subsection \<open>Facts about clustering\<close>

lemma foldl_cluster_step:
  "foldl (cluster_step tol) (pre @ [cur]) vs = pre @ greedy_chain tol cur vs"
proof (induction vs arbitrary: pre cur)
  case Nil
  show ?case by simp
next
  case (Cons v vs)
  show ?case
  proof (cases "\<bar>v - last cur\<bar> \<le> tol")
    case True
    then have "cluster_step tol (pre @ [cur]) v = pre @ [cur @ [v]]"
      by (simp add: cluster_step_def)
    then show ?thesis using True Cons.IH [of pre "cur @ [v]"] by simp
  next
    case False
    then have "cluster_step tol (pre @ [cur]) v = (pre @ [cur]) @ [[v]]"
      by (simp add: cluster_step_def)
    then show ?thesis using False Cons.IH [of "pre @ [cur]" "[v]"] by simp
  qed
qed

lemma cluster_groups_chain:
  "sort values = v # vs \<Longrightarrow> cluster_groups values tol = greedy_chain tol [v] vs"
proof -
  assume s: "sort values = v # vs"
  then have ne: "values \<noteq> []" by auto
  have "foldl (cluster_step tol) ([] @ [[v]]) vs = [] @ greedy_chain tol [v] vs"
    by (rule foldl_cluster_step)
  then show ?thesis using ne s by (simp add: cluster_groups_def)
qed

lemma cluster_positions_eq_ref: "cluster_positions values tol = cluster_1d values tol"
proof (cases "sort values")
  case Nil
  then have "length values = 0" by (metis length_sort list.size(3))
  then have "values = []" by simp
  then show ?thesis by (simp add: cluster_positions_def cluster_1d_def)
next
  case (Cons v vs)
  then have "values \<noteq> []" by auto
  then show ?thesis
    using Cons cluster_groups_chain [OF Cons, of tol]
    by (simp add: cluster_positions_def cluster_1d_def)
qed

lemma mean_bounds:
  assumes "c \<noteq> []"
  shows "(\<forall>x\<in>set c. lo \<le> x) \<Longrightarrow> lo \<le> mean c"
    and "(\<forall>x\<in>set c. x \<le> hi) \<Longrightarrow> mean c \<le> hi"
proof -
  have n: "0 < real (length c)" using assms by simp
  {
    assume "\<forall>x\<in>set c. lo \<le> x"
    then have "sum_list (map (\<lambda>_. lo) c) \<le> sum_list (map (\<lambda>x. x) c)"
      by (intro sum_list_mono) simp
    then have "real (length c) * lo \<le> sum_list c" by (simp add: sum_list_triv)
    then show "lo \<le> mean c" using n unfolding mean_def
      by (simp add: pos_le_divide_eq mult.commute)
  }
  {
    assume "\<forall>x\<in>set c. x \<le> hi"
    then have "sum_list (map (\<lambda>x. x) c) \<le> sum_list (map (\<lambda>_. hi) c)"
      by (intro sum_list_mono) simp
    then have "sum_list c \<le> real (length c) * hi" by (simp add: sum_list_triv)
    then show "mean c \<le> hi" using n unfolding mean_def
      by (simp add: pos_divide_le_eq mult.commute)
  }
qed



lemma sorted_hd_least: "sorted c \<Longrightarrow> x \<in> set c \<Longrightarrow> hd c \<le> (x::real)"
  by (cases c) auto

lemma sorted_last_greatest: "sorted c \<Longrightarrow> x \<in> set c \<Longrightarrow> (x::real) \<le> last c"
  by (induction c) auto

lemma greedy_chain_nonempty: "greedy_chain tol cur vs \<noteq> []"
  by (induction vs arbitrary: cur) auto

lemma greedy_chain_concat: "concat (greedy_chain tol cur vs) = cur @ vs"
  by (induction vs arbitrary: cur) auto

lemma greedy_chain_means:
  assumes "sorted (cur @ vs)" and "cur \<noteq> []"
  shows "sorted (map mean (greedy_chain tol cur vs))
         \<and> (\<forall>c\<in>set (greedy_chain tol cur vs). hd cur \<le> mean c)
         \<and> successively (\<lambda>a b. tol < \<bar>b - a\<bar>) (map mean (greedy_chain tol cur vs))"
  using assms
proof (induction vs arbitrary: cur)
  case Nil
  then have "hd cur \<le> mean cur"
    by (intro mean_bounds(1)) (auto intro: sorted_hd_least)
  then show ?case by simp
next
  case (Cons v vs)
  have sc: "sorted cur" and below: "\<forall>x\<in>set cur. x \<le> v" and sv: "sorted (v # vs)"
    using Cons.prems(1) by (auto simp: sorted_append)
  have lo: "hd cur \<le> mean cur"
    using Cons.prems(2) sc by (intro mean_bounds(1)) (auto intro: sorted_hd_least)
  have hi: "mean cur \<le> last cur"
    using Cons.prems(2) sc by (intro mean_bounds(2)) (auto intro: sorted_last_greatest)
  have lv: "last cur \<le> v" using below Cons.prems(2) by simp
  have hv: "hd cur \<le> v" using below Cons.prems(2) by (cases cur) auto
  show ?case
  proof (cases "\<bar>v - last cur\<bar> > tol")
    case True
    have ih: "sorted (map mean (greedy_chain tol [v] vs))
         \<and> (\<forall>c\<in>set (greedy_chain tol [v] vs). hd [v] \<le> mean c)
         \<and> successively (\<lambda>a b. tol < \<bar>b - a\<bar>) (map mean (greedy_chain tol [v] vs))"
      using Cons.IH [of "[v]"] sv by simp
    obtain d ds where rest: "greedy_chain tol [v] vs = d # ds"
      using greedy_chain_nonempty [of tol "[v]" vs] by (cases "greedy_chain tol [v] vs") auto
    have ge: "\<forall>c\<in>set (d # ds). v \<le> mean c" using ih rest by simp
    then have d: "v \<le> mean d" by simp
    have gap: "tol < \<bar>mean d - mean cur\<bar>" using True d hi lv by linarith
    have "sorted (mean cur # map mean (d # ds))"
      using ih rest ge hi lv by (auto simp del: list.map intro: order_trans)
    moreover have "\<forall>c\<in>set (cur # d # ds). hd cur \<le> mean c"
      using lo ge hv by (auto intro: order_trans)
    moreover have "successively (\<lambda>a b. tol < \<bar>b - a\<bar>) (mean cur # map mean (d # ds))"
      using ih rest gap by simp
    ultimately show ?thesis using True rest by simp
  next
    case False
    have "sorted ((cur @ [v]) @ vs)" using Cons.prems(1) by simp
    from Cons.IH [OF this] False Cons.prems(2) show ?thesis by simp
  qed
qed


lemma cluster_positions_groups:
  "cluster_positions values tol = map mean (cluster_groups values tol)"
  by (simp add: cluster_positions_def cluster_groups_def)

lemma cluster_positions_facts:
  "sorted (cluster_positions values tol)
   \<and> successively (\<lambda>a b. tol < \<bar>b - a\<bar>) (cluster_positions values tol)
   \<and> (values \<noteq> [] \<longrightarrow> cluster_positions values tol \<noteq> [])"
proof (cases "sort values")
  case Nil
  then have "length values = 0" by (metis length_sort list.size(3))
  then show ?thesis by (simp add: cluster_positions_def)
next
  case (Cons v vs)
  have "sorted ([v] @ vs)" using sorted_sort [of "values"] Cons by simp
  from greedy_chain_means [OF this, of tol] show ?thesis
    unfolding cluster_positions_groups cluster_groups_chain [OF Cons]
    using greedy_chain_nonempty [of tol "[v]" vs] by simp
qed





text \<open>
  Claim C6. \<^verbatim>\<open>_cluster_positions\<close> computes what the reference greedy chaining computes:
  the values sorted ascending, cut wherever a value is further than the tolerance from
  the last value of the running cluster (not from its mean), each cluster replaced by
  its mean. The clusters are a cutting of the sorted values, the centers come out in
  ascending order, and no value gives no center.
\<close>

theorem cluster_positions_is_greedy_chaining:
  "cluster_positions values tol = cluster_1d values tol
   \<and> cluster_positions values tol = map mean (cluster_groups values tol)
   \<and> concat (cluster_groups values tol) = sort values
   \<and> sorted (cluster_positions values tol)
   \<and> cluster_positions [] tol = []"
proof -
  have "concat (cluster_groups values tol) = sort values"
  proof (cases "sort values")
    case Nil
    then have "length values = 0" by (metis length_sort list.size(3))
    then show ?thesis by (simp add: cluster_groups_def)
  next
    case (Cons v vs)
    show ?thesis
      unfolding cluster_groups_chain [OF Cons] greedy_chain_concat Cons by simp
  qed
  moreover have "cluster_positions [] tol = []" by (simp add: cluster_positions_def)
  ultimately show ?thesis
    using cluster_positions_eq_ref [of "values" tol] cluster_positions_groups [of "values" tol]
      cluster_positions_facts [of "values" tol]
    by simp
qed


subsection \<open>Facts about table retention\<close>

lemma dedup_step_seen:
  "dedup_step (found, map bbox found) t =
     (if \<exists>s\<in>set found. bbox_iou (bbox t) (bbox s) > 0.75 then (found, map bbox found)
      else (found @ [t], map bbox (found @ [t])))"
  by (simp add: dedup_step_def list_ex_iff)

lemma foldl_dedup_seen:
  "\<exists>found'. foldl dedup_step (found, map bbox found) ts = (found', map bbox found')"
proof (induction ts arbitrary: found)
  case Nil
  show ?case by simp
next
  case (Cons t ts)
  show ?case
  proof (cases "\<exists>s\<in>set found. bbox_iou (bbox t) (bbox s) > 0.75")
    case True
    then show ?thesis using Cons [of found] by (simp only: foldl_Cons dedup_step_seen if_True)
  next
    case False
    then show ?thesis using Cons [of "found @ [t]"]
      by (simp only: foldl_Cons dedup_step_seen if_False)
  qed
qed

lemma dedup_state: "foldl dedup_step ([], []) ts = (dedup ts, map bbox (dedup ts))"
  using foldl_dedup_seen [of "[]" ts] by (auto simp: dedup_def)

lemma dedup_snoc:
  "dedup (ts @ [t]) =
     (if \<exists>s\<in>set (dedup ts). bbox_iou (bbox t) (bbox s) > 0.75 then dedup ts
      else dedup ts @ [t])"
proof -
  have "dedup (ts @ [t]) = fst (dedup_step (dedup ts, map bbox (dedup ts)) t)"
    unfolding dedup_def [of "ts @ [t]"] foldl_append dedup_state by simp
  then show ?thesis unfolding dedup_step_seen by simp
qed

lemma foldl_strategies:
  "foldl (\<lambda>st r. foldl dedup_step st (strategy_tables r)) st results
     = foldl dedup_step st (concat (map strategy_tables results))"
  by (induction results arbitrary: st) simp_all

lemma extract_is_dedup: "extract_tables_with_fallback results = dedup (candidates results)"
  by (simp add: extract_tables_with_fallback_def dedup_def candidates_def foldl_strategies)

lemma dedup_pair:
  "dedup [a, b] = (if bbox_iou (bbox b) (bbox a) > 0.75 then [a] else [a, b])"
proof -
  have "dedup [a] = [a]" using dedup_snoc [of "[]" a] by (simp add: dedup_def)
  then show ?thesis using dedup_snoc [of "[a]" b] by simp
qed

lemma foldl_max_ge: "(k::nat) \<le> foldl max l ls \<longleftrightarrow> (\<exists>x\<in>set (l # ls). k \<le> x)"
  by (induction ls arbitrary: l) (auto simp: le_max_iff_disj)

lemma weak_table_iff:
  "\<not> weak_table t \<longleftrightarrow>
     2 \<le> length (table_data t) \<and> (\<exists>r\<in>set (table_data t). 2 \<le> length r)
     \<and> 4 \<le> length (filter cell_non_empty (concat (table_data t)))"
proof (cases "table_data t")
  case Nil
  then show ?thesis by (simp add: weak_table_def table_shape_quality_def)
next
  case (Cons r rs)
  have "2 \<le> foldl max (length r) (map length rs) \<longleftrightarrow> (\<exists>x\<in>set (r # rs). 2 \<le> length x)"
    unfolding foldl_max_ge by auto
  then show ?thesis
    unfolding weak_table_def table_shape_quality_def Let_def Cons
    by (auto simp: not_less Suc_le_eq simp del: foldl_Cons)
qed

lemma table_objs_filter:
  "table_objs raw = map (\<lambda>t. \<lparr>obj_bbox = bbox t, obj_data = table_data t\<rparr>)
                        (filter (\<lambda>t. \<not> weak_table t) raw)"
  by (induction raw) simp_all

text \<open>
  Claim C3. The candidates are taken strategy by strategy, in order. A candidate is
  dropped exactly when its box has intersection over union above 0.75 with the box of a
  candidate accepted before it, and is accepted otherwise: of two candidates above 0.75
  only the first is returned, of two candidates at 0 both are. An accepted table then
  enters the layout exactly when it has at least 2 rows, a row of at least 2 cells
  (the column count is the longest row) and at least 4 cells that are not empty.
\<close>

theorem table_retention:
  "extract_tables_with_fallback results = dedup (candidates results)
   \<and> dedup [] = []
   \<and> dedup (ts @ [t]) =
         (if \<exists>s\<in>set (dedup ts). bbox_iou (bbox t) (bbox s) > 0.75 then dedup ts
          else dedup ts @ [t])
   \<and> (bbox_iou (bbox b) (bbox a) > 0.75 \<longrightarrow>
          extract_tables_with_fallback [Some [a], Some [b]] = [a])
   \<and> (bbox_iou (bbox d) (bbox c) = 0 \<longrightarrow>
          extract_tables_with_fallback [Some [c], Some [d]] = [c, d])
   \<and> table_objs raw =
         map (\<lambda>t. \<lparr>obj_bbox = bbox t, obj_data = table_data t\<rparr>)
           (filter (\<lambda>t. 2 \<le> length (table_data t)
                        \<and> (\<exists>r\<in>set (table_data t). 2 \<le> length r)
                        \<and> 4 \<le> length (filter cell_non_empty (concat (table_data t))))
              raw)"
proof -
  have pair: "extract_tables_with_fallback [Some [p], Some [q]] = dedup [p, q]" for p q
    by (simp add: extract_is_dedup candidates_def strategy_tables_def)
  have "dedup [] = []" by (simp add: dedup_def)
  moreover have "bbox_iou (bbox b) (bbox a) > 0.75 \<longrightarrow>
          extract_tables_with_fallback [Some [a], Some [b]] = [a]"
    unfolding pair dedup_pair by simp
  moreover have "bbox_iou (bbox d) (bbox c) = 0 \<longrightarrow>
          extract_tables_with_fallback [Some [c], Some [d]] = [c, d]"
    unfolding pair dedup_pair by simp
  moreover have "table_objs raw =
         map (\<lambda>t. \<lparr>obj_bbox = bbox t, obj_data = table_data t\<rparr>)
           (filter (\<lambda>t. 2 \<le> length (table_data t)
                        \<and> (\<exists>r\<in>set (table_data t). 2 \<le> length r)
                        \<and> 4 \<le> length (filter cell_non_empty (concat (table_data t))))
              raw)"
    unfolding table_objs_filter weak_table_iff ..
  ultimately show ?thesis
    using extract_is_dedup [of results] dedup_snoc [of ts t] by blast
qed

theorem table_retention_witness:
  "bbox_iou (0, 0, 10, 11) (0, 0, 10, 10) > 0.75
   \<and> bbox_iou (20, 20, 30, 30) (0, 0, 10, 10) = 0
   \<and> extract_tables_with_fallback
        [Some [\<lparr>bbox = (0, 0, 10, 10), extracted = None\<rparr>],
         Some [\<lparr>bbox = (0, 0, 10, 11), extracted = None\<rparr>]]
       = [\<lparr>bbox = (0, 0, 10, 10), extracted = None\<rparr>]
   \<and> extract_tables_with_fallback
        [Some [\<lparr>bbox = (0, 0, 10, 10), extracted = None\<rparr>],
         Some [\<lparr>bbox = (20, 20, 30, 30), extracted = None\<rparr>]]
       = [\<lparr>bbox = (0, 0, 10, 10), extracted = None\<rparr>,
          \<lparr>bbox = (20, 20, 30, 30), extracted = None\<rparr>]
   \<and> table_objs
        [\<lparr>bbox = (0, 0, 10, 10),
          extracted = Some [[Some ''a'', Some ''b''], [Some ''c'', Some ''d'']]\<rparr>,
         \<lparr>bbox = (20, 20, 30, 30),
          extracted = Some [[Some ''a'', Some ''b'', Some ''c'', Some ''d'', Some ''e'']]\<rparr>]
       = [\<lparr>obj_bbox = (0, 0, 10, 10),
           obj_data = [[Some ''a'', Some ''b''], [Some ''c'', Some ''d'']]\<rparr>]"
proof -
  have h1: "bbox_iou (0, 0, 10, 11) (0, 0, 10, 10) > 0.75"
    by (simp add: bbox_iou_def)
  have h2: "bbox_iou (20, 20, 30, 30) (0, 0, 10, 10) = 0"
    by (simp add: bbox_iou_def)
  note r = table_retention
    [of "[]" "[]" "\<lparr>bbox = (0, 0, 10, 10), extracted = None\<rparr>"
        "\<lparr>bbox = (0, 0, 10, 11), extracted = None\<rparr>"
        "\<lparr>bbox = (0, 0, 10, 10), extracted = None\<rparr>"
        "\<lparr>bbox = (20, 20, 30, 30), extracted = None\<rparr>"
        "\<lparr>bbox = (0, 0, 10, 10), extracted = None\<rparr>"
        "[\<lparr>bbox = (0, 0, 10, 10),
          extracted = Some [[Some ''a'', Some ''b''], [Some ''c'', Some ''d'']]\<rparr>,
         \<lparr>bbox = (20, 20, 30, 30),
          extracted = Some [[Some ''a'', Some ''b'', Some ''c'', Some ''d'', Some ''e'']]\<rparr>]"]
  have c1: "extract_tables_with_fallback
        [Some [\<lparr>bbox = (0, 0, 10, 10), extracted = None\<rparr>],
         Some [\<lparr>bbox = (0, 0, 10, 11), extracted = None\<rparr>]]
       = [\<lparr>bbox = (0, 0, 10, 10), extracted = None\<rparr>]"
    using r [THEN conjunct2, THEN conjunct2, THEN conjunct2, THEN conjunct1] h1 by simp
  have c2: "extract_tables_with_fallback
        [Some [\<lparr>bbox = (0, 0, 10, 10), extracted = None\<rparr>],
         Some [\<lparr>bbox = (20, 20, 30, 30), extracted = None\<rparr>]]
       = [\<lparr>bbox = (0, 0, 10, 10), extracted = None\<rparr>,
          \<lparr>bbox = (20, 20, 30, 30), extracted = None\<rparr>]"
    using r [THEN conjunct2, THEN conjunct2, THEN conjunct2, THEN conjunct2, THEN conjunct1] h2
    by simp
  have c3: "table_objs
        [\<lparr>bbox = (0, 0, 10, 10),
          extracted = Some [[Some ''a'', Some ''b''], [Some ''c'', Some ''d'']]\<rparr>,
         \<lparr>bbox = (20, 20, 30, 30),
          extracted = Some [[Some ''a'', Some ''b'', Some ''c'', Some ''d'', Some ''e'']]\<rparr>]
       = [\<lparr>obj_bbox = (0, 0, 10, 10),
           obj_data = [[Some ''a'', Some ''b''], [Some ''c'', Some ''d'']]\<rparr>]"
    unfolding r [THEN conjunct2, THEN conjunct2, THEN conjunct2, THEN conjunct2, THEN conjunct2]
    by (simp add: table_data_def cell_non_empty_def strip_def isspace_def
        conj_disj_distribR ex_disj_distrib)
  from h1 h2 c1 c2 c3 show ?thesis by (simp only: simp_thms)
qed

subsection \<open>Facts about strings\<close>

lemma clean_strip: "clean s \<Longrightarrow> strip s = s"
proof -
  assume c: "clean s"
  then have "dropWhile isspace s = s"
    by (simp add: clean_def dropWhile_eq_self_iff)
  moreover have "dropWhile isspace (rev s) = rev s"
    using c by (simp add: clean_def dropWhile_eq_self_iff hd_rev)
  ultimately show ?thesis by (simp add: strip_def)
qed

lemma strip_clean: "strip s \<noteq> [] \<Longrightarrow> clean (strip s)"
proof -
  assume ne: "strip s \<noteq> []"
  define t where "t = dropWhile isspace s"
  define u where "u = dropWhile isspace (rev t)"
  have s: "strip s = rev u" by (simp add: strip_def t_def u_def)
  then have une: "u \<noteq> []" using ne by simp
  then have tne: "t \<noteq> []" unfolding u_def by auto
  have "\<not> isspace (hd u)" using une unfolding u_def by (rule hd_dropWhile)
  then have last_ok: "\<not> isspace (last (rev u))" using une by (simp add: last_rev)
  have "\<not> isspace (hd t)" using tne unfolding t_def by (rule hd_dropWhile)
  moreover have "hd (rev u) = hd t"
  proof -
    have "rev t = takeWhile isspace (rev t) @ u" by (simp add: u_def)
    then have "t = rev u @ rev (takeWhile isspace (rev t))"
      by (metis rev_append rev_rev_ident)
    then show ?thesis using une by (metis hd_append2 rev_is_Nil_conv)
  qed
  ultimately show ?thesis using last_ok ne unfolding s clean_def by simp
qed

lemma clean_join: "clean a \<Longrightarrow> clean b \<Longrightarrow> clean (a @ j @ b)"
  by (simp add: clean_def)

lemma visible_dropWhile: "visible (dropWhile isspace s) = visible s"
  by (induction s) (simp_all add: visible_def)

lemma visible_rev: "visible (rev s) = rev (visible s)"
  by (simp add: visible_def rev_filter)

lemma visible_strip: "visible (strip s) = visible s"
  by (simp add: strip_def visible_rev visible_dropWhile)

lemma visible_append: "visible (a @ b) = visible a @ visible b"
  by (simp add: visible_def)

lemma visible_joiner: "visible (joiner a b) = []"
  by (simp add: joiner_def visible_def isspace_def)

subsection \<open>Facts about the fragment merger\<close>

lemma merge_nil: "merge_fragmented_words [] = []"
  by (simp add: merge_fragmented_words_def)

lemma merge_single: "merge_fragmented_words [w] = [w]"
  by (simp add: merge_fragmented_words_def)

lemma merge_snoc:
  "ws \<noteq> [] \<Longrightarrow> merge_fragmented_words (ws @ [w]) = merge_step (merge_fragmented_words ws) w"
  by (cases ws) (simp_all add: merge_fragmented_words_def)

lemma merge_step_nonempty: "merge_step merged w \<noteq> []"
  by (simp add: merge_step_def Let_def)

lemma merge_nonempty: "ws \<noteq> [] \<Longrightarrow> merge_fragmented_words ws \<noteq> []"
proof (induction ws rule: rev_induct)
  case Nil
  then show ?case by simp
next
  case (snoc w ws)
  show ?case
  proof (cases "ws = []")
    case True
    then show ?thesis by (simp add: merge_single)
  next
    case False
    then show ?thesis by (simp add: merge_snoc merge_step_nonempty)
  qed
qed

lemma merge_step_cases:
  assumes "merged \<noteq> []"
  shows "merge_step merged w =
           (if should_merge (last merged) w then butlast merged @ [absorb (last merged) w]
            else merged @ [w])"
  by (simp add: merge_step_def Let_def)

lemma texts_snoc: "texts (ws @ [w]) = texts ws @ wtext w"
  by (simp add: texts_def)

lemma texts_butlast: "m \<noteq> [] \<Longrightarrow> texts m = texts (butlast m) @ wtext (last m)"
  using texts_snoc [of "butlast m" "last m"] by simp

lemma merge_step_length: "merged \<noteq> [] \<Longrightarrow> length (merge_step merged w) \<le> length merged + 1"
  by (simp add: merge_step_cases)

lemma merge_step_visible:
  assumes "merged \<noteq> []"
  shows "visible (texts (merge_step merged w)) = visible (texts merged) @ visible (wtext w)"
proof (cases "should_merge (last merged) w")
  case True
  have "visible (wtext (absorb (last merged) w)) = visible (wtext (last merged)) @ visible (wtext w)"
    by (simp add: absorb_def visible_strip visible_append visible_joiner)
  then show ?thesis
    using True assms texts_butlast [OF assms]
    by (simp add: merge_step_cases texts_snoc visible_append)
next
  case False
  then show ?thesis using assms by (simp add: merge_step_cases texts_snoc visible_append)
qed

lemma merge_length: "length (merge_fragmented_words ws) \<le> length ws"
proof (induction ws rule: rev_induct)
  case Nil
  show ?case by (simp add: merge_nil)
next
  case (snoc w ws)
  show ?case
  proof (cases "ws = []")
    case True
    then show ?thesis by (simp add: merge_single)
  next
    case False
    then show ?thesis
      using snoc merge_step_length [OF merge_nonempty [OF False], of w]
      by (simp add: merge_snoc)
  qed
qed

lemma merge_visible: "visible (texts (merge_fragmented_words ws)) = visible (texts ws)"
proof (induction ws rule: rev_induct)
  case Nil
  show ?case by (simp add: merge_nil)
next
  case (snoc w ws)
  show ?case
  proof (cases "ws = []")
    case True
    then show ?thesis by (simp add: merge_single)
  next
    case False
    then show ?thesis
      using snoc merge_step_visible [OF merge_nonempty [OF False], of w]
      by (simp add: merge_snoc texts_snoc visible_append)
  qed
qed

lemma absorb_clean:
  assumes "clean (wtext p)" and "clean (wtext w)"
  shows "wtext (absorb p w) = wtext p @ joiner (wtext p) (wtext w) @ wtext w"
    and "clean (wtext (absorb p w))"
    and "x1 (absorb p w) = x1 w" and "x0 (absorb p w) = x0 p" and "y0 (absorb p w) = y0 p"
proof -
  have c: "clean (wtext p @ joiner (wtext p) (wtext w) @ wtext w)"
    using assms by (rule clean_join)
  then show "wtext (absorb p w) = wtext p @ joiner (wtext p) (wtext w) @ wtext w"
    by (simp add: absorb_def clean_strip)
  then show "clean (wtext (absorb p w))" using c by simp
  show "x1 (absorb p w) = x1 w" "x0 (absorb p w) = x0 p" "y0 (absorb p w) = y0 p"
    by (simp_all add: absorb_def)
qed

lemma merge_step_clean:
  assumes "merged \<noteq> []" and "\<forall>m\<in>set merged. clean (wtext m)" and "clean (wtext w)"
  shows "\<forall>m\<in>set (merge_step merged w). clean (wtext m)"
proof (cases "should_merge (last merged) w")
  case True
  have "clean (wtext (last merged))" using assms(1,2) by simp
  then have "clean (wtext (absorb (last merged) w))" using assms(3) by (rule absorb_clean(2))
  then show ?thesis
    using True assms by (auto simp: merge_step_cases dest: in_set_butlastD)
next
  case False
  then show ?thesis using assms by (auto simp: merge_step_cases)
qed

lemma merge_clean:
  "\<forall>w\<in>set ws. clean (wtext w) \<Longrightarrow> \<forall>m\<in>set (merge_fragmented_words ws). clean (wtext m)"
proof (induction ws rule: rev_induct)
  case Nil
  show ?case by (simp add: merge_nil)
next
  case (snoc w ws)
  show ?case
  proof (cases "ws = []")
    case True
    then show ?thesis using snoc.prems by (simp add: merge_single)
  next
    case False
    have "\<forall>m\<in>set (merge_fragmented_words ws). clean (wtext m)"
      using snoc by simp
    moreover have "clean (wtext w)" using snoc.prems by simp
    ultimately show ?thesis
      unfolding merge_snoc [OF False]
      by (intro merge_step_clean merge_nonempty False)
  qed
qed

lemma joiner_length: "length (joiner a b) \<le> 1"
  by (simp add: joiner_def)

lemma merge_step_subseq:
  assumes "merged \<noteq> []" and "clean (wtext (last merged))" and "clean (wtext w)"
    and "subseq t (texts merged)"
  shows "subseq (t @ wtext w) (texts (merge_step merged w))"
    and "length (texts (merge_step merged w)) + length (merge_step merged w)
           \<le> length (texts merged) + length (wtext w) + length merged + 1"
proof -
  let ?p = "last merged"
  have tm: "texts merged = texts (butlast merged) @ wtext ?p"
    using assms(1) by (rule texts_butlast)
  have ta: "texts (butlast merged @ [absorb ?p w])
              = texts merged @ joiner (wtext ?p) (wtext w) @ wtext w"
    unfolding texts_snoc absorb_clean(1) [OF assms(2,3)] tm by simp
  have len: "length (butlast merged @ [absorb ?p w]) = length merged"
    using assms(1) by simp
  have sub: "subseq (wtext w) (joiner (wtext ?p) (wtext w) @ wtext w)"
    by (rule list_emb_append2) simp
  show "subseq (t @ wtext w) (texts (merge_step merged w))"
  proof (cases "should_merge ?p w")
    case True
    have "subseq (t @ wtext w) (texts merged @ joiner (wtext ?p) (wtext w) @ wtext w)"
      using assms(4) sub by (rule list_emb_append_mono)
    then show ?thesis using True assms(1) ta by (simp add: merge_step_cases)
  next
    case False
    have "subseq (t @ wtext w) (texts merged @ wtext w)"
      using assms(4) by (intro list_emb_append_mono) simp_all
    then show ?thesis using False assms(1) by (simp add: merge_step_cases texts_snoc)
  qed
  show "length (texts (merge_step merged w)) + length (merge_step merged w)
           \<le> length (texts merged) + length (wtext w) + length merged + 1"
  proof (cases "should_merge ?p w")
    case True
    then show ?thesis
      using assms(1) ta len joiner_length [of "wtext ?p" "wtext w"]
      by (simp add: merge_step_cases)
  next
    case False
    then show ?thesis using assms(1) by (simp add: merge_step_cases texts_snoc)
  qed
qed

lemma merge_subseq:
  assumes "\<forall>w\<in>set ws. clean (wtext w)"
  shows "subseq (texts ws) (texts (merge_fragmented_words ws))
         \<and> length (texts (merge_fragmented_words ws)) + length (merge_fragmented_words ws)
             \<le> length (texts ws) + length ws"
  using assms
proof (induction ws rule: rev_induct)
  case Nil
  show ?case by (simp add: merge_nil)
next
  case (snoc w ws)
  show ?case
  proof (cases "ws = []")
    case True
    then show ?thesis by (simp add: merge_single)
  next
    case False
    let ?m = "merge_fragmented_words ws"
    have ne: "?m \<noteq> []" using False by (rule merge_nonempty)
    have cl: "\<forall>m\<in>set ?m. clean (wtext m)" using snoc.prems by (intro merge_clean) simp
    then have cp: "clean (wtext (last ?m))" using ne by simp
    have cw: "clean (wtext w)" using snoc.prems by simp
    have ih: "subseq (texts ws) (texts ?m)"
      and il: "length (texts ?m) + length ?m \<le> length (texts ws) + length ws"
      using snoc by simp_all
    note st = merge_step_subseq [OF ne cp cw ih]
    show ?thesis
      unfolding merge_snoc [OF False] using st il by (simp add: texts_snoc)
  qed
qed

text \<open>
  Claim C4. The merger is one pass from left to right. The next word is merged into the
  last word produced so far (which may already have absorbed earlier words) exactly when
  the gap between its \<open>x0\<close> and that word's \<open>x1\<close> is at most 12 and one of the two
  texts has at most 3 characters or both are alphabetic. The merged text is the two
  texts with nothing between them when both are alphabetic, and with one space
  otherwise; the merged word ends at the \<open>x1\<close> of the absorbed word. The texts are those
  of a line's words: stripped and not empty. The fragments "Jo" (0 to 10) and "hn"
  (11 to 20) give "John".
\<close>

theorem fragment_merger_rule:
  assumes "ws \<noteq> []" and "\<forall>v\<in>set (ws @ [w]). clean (wtext v)"
  shows "merge_fragmented_words (ws @ [w]) =
           (let merged = merge_fragmented_words ws; prev = last merged
            in if x0 w - x1 prev \<le> 12
                  \<and> (length (wtext prev) \<le> 3 \<or> length (wtext w) \<le> 3
                      \<or> (isalpha (wtext prev) \<and> isalpha (wtext w)))
               then butlast merged
                      @ [prev\<lparr>wtext := (if isalpha (wtext prev) \<and> isalpha (wtext w)
                                         then wtext prev @ wtext w
                                         else wtext prev @ '' '' @ wtext w),
                               x1 := x1 w\<rparr>]
               else merged @ [w])
         \<and> merge_fragmented_words [] = []
         \<and> merge_fragmented_words [w] = [w]
         \<and> merge_fragmented_words
              [\<lparr>x0 = 0, x1 = 10, y0 = y, wtext = ''Jo''\<rparr>,
               \<lparr>x0 = 11, x1 = 20, y0 = y, wtext = ''hn''\<rparr>]
             = [\<lparr>x0 = 0, x1 = 20, y0 = y, wtext = ''John''\<rparr>]"
proof -
  let ?m = "merge_fragmented_words ws"
  have ne: "?m \<noteq> []" using assms(1) by (rule merge_nonempty)
  have "\<forall>m\<in>set ?m. clean (wtext m)" using assms(2) by (intro merge_clean) simp
  then have cp: "clean (wtext (last ?m))" using ne by simp
  have cw: "clean (wtext w)" using assms(2) by simp
  have eq: "absorb (last ?m) w
          = (last ?m)\<lparr>wtext := (if isalpha (wtext (last ?m)) \<and> isalpha (wtext w)
                                 then wtext (last ?m) @ wtext w
                                 else wtext (last ?m) @ '' '' @ wtext w),
                       x1 := x1 w\<rparr>"
    using absorb_clean(1) [OF cp cw] by (simp add: absorb_def joiner_def)
  have sm: "should_merge (last ?m) w \<longleftrightarrow>
              x0 w - x1 (last ?m) \<le> 12
              \<and> (length (wtext (last ?m)) \<le> 3 \<or> length (wtext w) \<le> 3
                  \<or> (isalpha (wtext (last ?m)) \<and> isalpha (wtext w)))"
    by (simp add: should_merge_def Let_def)
  have step: "merge_fragmented_words (ws @ [w]) =
           (let merged = merge_fragmented_words ws; prev = last merged
            in if x0 w - x1 prev \<le> 12
                  \<and> (length (wtext prev) \<le> 3 \<or> length (wtext w) \<le> 3
                      \<or> (isalpha (wtext prev) \<and> isalpha (wtext w)))
               then butlast merged
                      @ [prev\<lparr>wtext := (if isalpha (wtext prev) \<and> isalpha (wtext w)
                                         then wtext prev @ wtext w
                                         else wtext prev @ '' '' @ wtext w),
                               x1 := x1 w\<rparr>]
               else merged @ [w])"
    unfolding merge_snoc [OF assms(1)] merge_step_cases [OF ne] Let_def eq sm ..
  have john: "merge_fragmented_words
              [\<lparr>x0 = 0, x1 = 10, y0 = y, wtext = ''Jo''\<rparr>,
               \<lparr>x0 = 11, x1 = 20, y0 = y, wtext = ''hn''\<rparr>]
             = [\<lparr>x0 = 0, x1 = 20, y0 = y, wtext = ''John''\<rparr>]"
    by (simp add: merge_fragmented_words_def merge_step_def should_merge_def absorb_def
        joiner_def isalpha_def isalpha_char_def strip_def isspace_def)
  from step john show ?thesis by (simp only: merge_nil merge_single simp_thms)
qed

theorem fragment_merger_rule_witness:
  "[\<lparr>x0 = 0, x1 = 10, y0 = 5, wtext = ''ab''\<rparr>] \<noteq> []
   \<and> clean ''ab'' \<and> clean ''12345''
   \<and> merge_fragmented_words
        ([\<lparr>x0 = 0, x1 = 10, y0 = 5, wtext = ''ab''\<rparr>]
         @ [\<lparr>x0 = 13, x1 = 40, y0 = 5, wtext = ''12345''\<rparr>])
       = [\<lparr>x0 = 0, x1 = 40, y0 = 5, wtext = ''ab 12345''\<rparr>]"
proof -
  have h1: "[\<lparr>x0 = 0, x1 = 10, y0 = 5, wtext = ''ab''\<rparr>] \<noteq> []" by simp
  have h2: "\<forall>v\<in>set ([\<lparr>x0 = 0, x1 = 10, y0 = 5, wtext = ''ab''\<rparr>]
                 @ [\<lparr>x0 = 13, x1 = 40, y0 = 5, wtext = ''12345''\<rparr>]). clean (wtext v)"
    by (simp add: clean_def isspace_def)
  have "merge_fragmented_words
        ([\<lparr>x0 = 0, x1 = 10, y0 = 5, wtext = ''ab''\<rparr>]
         @ [\<lparr>x0 = 13, x1 = 40, y0 = 5, wtext = ''12345''\<rparr>])
       = [\<lparr>x0 = 0, x1 = 40, y0 = 5, wtext = ''ab 12345''\<rparr>]"
    unfolding fragment_merger_rule [OF h1 h2, THEN conjunct1]
    by (simp add: merge_single isalpha_def isalpha_char_def)
  moreover have "clean ''ab''" "clean ''12345''" using h2 by simp_all
  ultimately show ?thesis using h1 by (simp only: simp_thms)
qed

text \<open>
  Claim C5. The merger never returns more words than it was given, and loses no text:
  the characters that are not white space come out exactly as they went in, in order,
  for any input; and for words as the page composer supplies them (stripped, not empty)
  the concatenated input texts are a subsequence of the concatenated output texts,
  which hold at most one more character, the separator, for each word merged away.
\<close>

theorem fragment_merger_conservation:
  "length (merge_fragmented_words ws) \<le> length ws
   \<and> visible (texts (merge_fragmented_words ws)) = visible (texts ws)
   \<and> ((\<forall>w\<in>set ws. clean (wtext w)) \<longrightarrow>
         subseq (texts ws) (texts (merge_fragmented_words ws))
         \<and> length (texts (merge_fragmented_words ws)) + length (merge_fragmented_words ws)
             \<le> length (texts ws) + length ws)"
  using merge_length [of ws] merge_visible [of ws] merge_subseq [of ws] by blast

theorem fragment_merger_conservation_witness:
  "clean ''ab'' \<and> clean ''12345'' \<and> clean ''total''
   \<and> texts (merge_fragmented_words
        [\<lparr>x0 = 0, x1 = 10, y0 = 5, wtext = ''ab''\<rparr>,
         \<lparr>x0 = 13, x1 = 40, y0 = 5, wtext = ''12345''\<rparr>,
         \<lparr>x0 = 90, x1 = 99, y0 = 5, wtext = ''total''\<rparr>]) = ''ab 12345total''
   \<and> subseq ''ab12345total''
        (texts (merge_fragmented_words
          [\<lparr>x0 = 0, x1 = 10, y0 = 5, wtext = ''ab''\<rparr>,
           \<lparr>x0 = 13, x1 = 40, y0 = 5, wtext = ''12345''\<rparr>,
           \<lparr>x0 = 90, x1 = 99, y0 = 5, wtext = ''total''\<rparr>]))
   \<and> length (merge_fragmented_words
        [\<lparr>x0 = 0, x1 = 10, y0 = 5, wtext = ''ab''\<rparr>,
         \<lparr>x0 = 13, x1 = 40, y0 = 5, wtext = ''12345''\<rparr>,
         \<lparr>x0 = 90, x1 = 99, y0 = 5, wtext = ''total''\<rparr>]) \<le> 3"
proof -
  let ?ws = "[\<lparr>x0 = 0, x1 = 10, y0 = 5, wtext = ''ab''\<rparr>,
              \<lparr>x0 = 13, x1 = 40, y0 = 5, wtext = ''12345''\<rparr>,
              \<lparr>x0 = 90, x1 = 99, y0 = 5, wtext = ''total''\<rparr>]"
  have h: "\<forall>w\<in>set ?ws. clean (wtext w)" by (simp add: clean_def isspace_def)
  have t: "texts ?ws = ''ab12345total''" by (simp add: texts_def)
  have m: "texts (merge_fragmented_words ?ws) = ''ab 12345total''"
    by (simp add: texts_def merge_fragmented_words_def merge_step_def should_merge_def
        absorb_def joiner_def isalpha_def isalpha_char_def strip_def isspace_def)
  note c = fragment_merger_conservation [of ?ws]
  have "subseq (texts ?ws) (texts (merge_fragmented_words ?ws))" using c h by blast
  then have s: "subseq ''ab12345total'' (texts (merge_fragmented_words ?ws))"
    unfolding t .
  have l: "length (merge_fragmented_words ?ws) \<le> 3" using c by simp
  have k: "clean ''ab''" "clean ''12345''" "clean ''total''" using h by simp_all
  from k m s l show ?thesis by (simp only: simp_thms)
qed

subsection \<open>Facts about the nearest center\<close>

lemma nearest_fold_bound:
  "fst st < n \<Longrightarrow> \<forall>i\<in>set is. i < n \<Longrightarrow> fst (foldl (nearest_step v centers) st is) < n"
proof (induction "is" arbitrary: st)
  case Nil
  then show ?case by simp
next
  case (Cons i "is")
  have "fst (nearest_step v centers st i) < n"
    using Cons.prems by (cases st) (simp add: nearest_step_def Let_def)
  then show ?case using Cons by simp
qed

lemma nearest_index_bound: "centers \<noteq> [] \<Longrightarrow> nearest_index v centers < length centers"
  by (simp add: nearest_index_def nearest_fold_bound)

subsection \<open>Facts about the page loop\<close>

lemma inside_table_iff:
  "inside_table boxes x y \<longleftrightarrow>
     (\<exists>b\<in>set boxes. case b of (bx0, by0, bx1, by1) \<Rightarrow>
        bx0 - 1 \<le> x \<and> x \<le> bx1 + 1 \<and> by0 - 1 \<le> y \<and> y \<le> by1 + 1)"
  by (simp add: inside_table_def list_ex_iff)

lemma free_words_filter:
  "free_words boxes words =
     map (\<lambda>w. \<lparr>x0 = w_x0 w, x1 = w_x1 w, y0 = w_y0 w, wtext = strip (w_text w)\<rparr>)
       (filter (\<lambda>w. strip (w_text w) \<noteq> []
                    \<and> \<not> inside_table boxes ((w_x0 w + w_x1 w) / 2) ((w_y0 w + w_y1 w) / 2))
          words)"
  by (induction words) (simp_all add: Let_def)

lemma free_words_clean: "s \<in> set (free_words boxes words) \<Longrightarrow> clean (wtext s)"
  unfolding free_words_filter by (auto intro: strip_clean)

lemma free_words_drop_blank:
  "free_words boxes (filter (\<lambda>w. strip (w_text w) \<noteq> []) words) = free_words boxes words"
  unfolding free_words_filter by (simp add: conj_commute cong: conj_cong)

lemma setdefault_append_keys:
  "map fst (setdefault_append k w m) = (if k \<in> set (map fst m) then map fst m else map fst m @ [k])"
  by (induction m) force+

lemma setdefault_append_distinct:
  "distinct (map fst m) \<Longrightarrow> distinct (map fst (setdefault_append k w m))"
  by (simp add: setdefault_append_keys)

lemma setdefault_append_map_of:
  "map_of (setdefault_append k w m) =
     (map_of m)(k \<mapsto> (case map_of m k of None \<Rightarrow> [w] | Some g \<Rightarrow> g @ [w]))"
  by (induction m) (auto simp: fun_eq_iff)

lemma lines_map_facts:
  "distinct (map fst (lines_map c free))
   \<and> (\<forall>k. map_of (lines_map c free) k =
            (if group_of c free k = [] then None else Some (group_of c free k)))"
proof (induction free rule: rev_induct)
  case Nil
  show ?case by (simp add: lines_map_def group_of_def)
next
  case (snoc w free)
  have step: "lines_map c (free @ [w])
                = setdefault_append (nearest_index (y0 w) c) w (lines_map c free)"
    by (simp add: lines_map_def)
  show ?case
    unfolding step using snoc
    by (auto simp: setdefault_append_distinct setdefault_append_map_of group_of_def)
qed

lemma lines_map_entry:
  assumes "(k, g) \<in> set (lines_map c free)"
  shows "g = group_of c free k" and "g \<noteq> []"
proof -
  have "distinct (map fst (lines_map c free))" using lines_map_facts [of c free] by blast
  then have "map_of (lines_map c free) k = Some g"
    using assms by (rule map_of_is_SomeI)
  then have "(if group_of c free k = [] then None else Some (group_of c free k)) = Some g"
    using lines_map_facts [of c free] by simp
  then show "g = group_of c free k" and "g \<noteq> []"
    by (auto split: if_splits)
qed

lemma lines_map_key_bound:
  assumes "(k, g) \<in> set (lines_map c free)" and "c \<noteq> []"
  shows "k < length c"
proof -
  have "group_of c free k \<noteq> []" using lines_map_entry [OF assms(1)] by simp
  then obtain w where "w \<in> set (group_of c free k)" by (cases "group_of c free k") auto
  then have "nearest_index (y0 w) c = k" by (simp add: group_of_def)
  then show ?thesis using nearest_index_bound [OF assms(2), of "y0 w"] by simp
qed

lemma line_elements_total:
  "\<forall>(k, g)\<in>set m. k < length c \<Longrightarrow>
   line_elements c m =
     Inr (map (\<lambda>(ridx, line_words).
                 Line (c ! ridx) (merge_fragmented_words (sort_key x0 line_words))) m)"
  by (induction m) auto

lemma lines_map_nil: "lines_map c [] = []"
  by (simp add: lines_map_def)

lemma page_elements_eq:
  "page_elements raw words =
     Inr (sort_key el_y (table_elements (table_objs raw)
                          @ lines_of (free_words (table_bboxes raw) words)))"
proof (cases "free_words (table_bboxes raw) words = []")
  case True
  then show ?thesis by (simp add: page_elements_def lines_of_def lines_map_nil)
next
  case False
  define free where "free = free_words (table_bboxes raw) words"
  define c where "c = cluster_positions (map y0 free) 3.2"
  have "map y0 free \<noteq> []" using False by (simp add: free_def)
  then have "c \<noteq> []" unfolding c_def
    using cluster_positions_facts [of "map y0 free" "3.2"] by blast
  then have "\<forall>(k, g)\<in>set (lines_map c free). k < length c"
    using lines_map_key_bound [of _ _ c free] by auto
  from line_elements_total [OF this] show ?thesis
    using False unfolding page_elements_def lines_of_def Let_def free_def [symmetric] c_def [symmetric]
    by simp
qed

lemma table_elements_tables: "list_all is_table (table_elements objs)"
  by (simp add: table_elements_def list_all_iff)

lemma lines_of_lines: "list_all (\<lambda>e. \<not> is_table e) (lines_of free)"
  by (auto simp: lines_of_def Let_def list_all_iff)

text \<open>
  Claim C2. The elements of a page come out sorted by \<open>y\<close>, never decreasing, and the
  sort is stable: the elements of any one \<open>y\<close> are the tables of that \<open>y\<close>, in their
  order, followed by the lines of that \<open>y\<close>, in theirs.
\<close>

theorem page_elements_sorted_stable:
  "\<exists>els. page_elements raw words = Inr els
     \<and> sorted (map el_y els)
     \<and> mset els = mset (table_elements (table_objs raw))
                    + mset (lines_of (free_words (table_bboxes raw) words))
     \<and> (\<forall>k. filter (\<lambda>e. el_y e = k) els =
              filter (\<lambda>e. el_y e = k) (table_elements (table_objs raw))
              @ filter (\<lambda>e. el_y e = k) (lines_of (free_words (table_bboxes raw) words)))
     \<and> list_all is_table (table_elements (table_objs raw))
     \<and> list_all (\<lambda>e. \<not> is_table e) (lines_of (free_words (table_bboxes raw) words))"
  unfolding page_elements_eq
  using table_elements_tables lines_of_lines
  by (simp add: sort_key_stable)

lemmas page_eval =
  page_elements_def weak_table_def table_shape_quality_def table_data_def
  cell_non_empty_def strip_def isspace_def table_bboxes_def inside_table_def
  cluster_positions_def cluster_groups_def cluster_step_def mean_def lines_map_def
  nearest_index_def nearest_step_def merge_fragmented_words_def table_elements_def
  bbox_top_def Let_def

theorem page_elements_sorted_stable_witness:
  "page_elements
     [\<lparr>bbox = (0, 10, 100, 50),
       extracted = Some [[Some ''a'', Some ''b''], [Some ''c'', Some ''d'']]\<rparr>]
     [\<lparr>w_x0 = 200, w_y0 = 10, w_x1 = 230, w_y1 = 20, w_text = ''Hello''\<rparr>]
   = Inr [Table 10 \<lparr>obj_bbox = (0, 10, 100, 50),
                     obj_data = [[Some ''a'', Some ''b''], [Some ''c'', Some ''d'']]\<rparr>,
          Line 10 [\<lparr>x0 = 200, x1 = 230, y0 = 10, wtext = ''Hello''\<rparr>]]
   \<and> sorted (map el_y
        [Table 10 \<lparr>obj_bbox = (0, 10, 100, 50),
                     obj_data = [[Some ''a'', Some ''b''], [Some ''c'', Some ''d'']]\<rparr>,
          Line 10 [\<lparr>x0 = 200, x1 = 230, y0 = 10, wtext = ''Hello''\<rparr>]])"
proof -
  let ?raw = "[\<lparr>bbox = (0, 10, 100, 50),
       extracted = Some [[Some ''a'', Some ''b''], [Some ''c'', Some ''d'']]\<rparr>]"
  let ?words = "[\<lparr>w_x0 = 200, w_y0 = 10, w_x1 = 230, w_y1 = 20, w_text = ''Hello''\<rparr>]"
  have e: "page_elements ?raw ?words
   = Inr [Table 10 \<lparr>obj_bbox = (0, 10, 100, 50),
                     obj_data = [[Some ''a'', Some ''b''], [Some ''c'', Some ''d'']]\<rparr>,
          Line 10 [\<lparr>x0 = 200, x1 = 230, y0 = 10, wtext = ''Hello''\<rparr>]]"
    by (simp add: page_eval)
  from page_elements_sorted_stable [of ?raw ?words] e show ?thesis by auto
qed

subsection \<open>Facts about the partition of the words\<close>

lemma regions_holding_zero:
  "regions_holding results w = 0 \<longleftrightarrow>
     \<not> inside_table (retained_boxes results) ((w_x0 w + w_x1 w) / 2) ((w_y0 w + w_y1 w) / 2)"
  by (auto simp: regions_holding_def inside_table_iff filter_empty_conv)

lemma page_free_filter:
  "page_free results words =
     map to_span (filter (\<lambda>w. strip (w_text w) \<noteq> [] \<and> regions_holding results w = 0) words)"
  unfolding page_free_def free_words_filter regions_holding_zero
  by (simp add: to_span_def [abs_def])

lemma setdefault_append_mset:
  "mset (concat (map snd (setdefault_append k w m))) = mset (concat (map snd m)) + {#w#}"
  by (induction m) auto

lemma lines_map_mset: "mset (concat (map snd (lines_map c free))) = mset free"
proof (induction free rule: rev_induct)
  case Nil
  show ?case by (simp add: lines_map_nil)
next
  case (snoc w free)
  have "lines_map c (free @ [w])
          = setdefault_append (nearest_index (y0 w) c) w (lines_map c free)"
    by (simp add: lines_map_def)
  then show ?case using snoc by (simp add: setdefault_append_mset)
qed

lemma filter_unique_key:
  assumes "distinct (map fst m)" and "(k0, g0) \<in> set m" and "P (k0, g0)"
    and "\<forall>(k, g)\<in>set m. P (k, g) \<longrightarrow> k = k0"
  shows "filter P m = [(k0, g0)]"
  using assms
proof (induction m)
  case Nil
  then show ?case by simp
next
  case (Cons a m)
  obtain k g where a: "a = (k, g)" by (cases a)
  show ?case
  proof (cases "k = k0")
    case True
    have notin: "k0 \<notin> fst ` set m" using Cons.prems(1) a True by simp
    then have "(k0, g0) \<notin> set m" by force
    then have ag: "a = (k0, g0)" using Cons.prems(2) by simp
    have "filter P m = []"
    proof (rule ccontr)
      assume "filter P m \<noteq> []"
      then obtain b where b: "b \<in> set m" "P b" by (auto simp: filter_empty_conv)
      then have "fst b = k0" using Cons.prems(4) by (cases b) auto
      then show False using b(1) notin by force
    qed
    then show ?thesis using ag Cons.prems(3) by simp
  next
    case False
    then have np: "\<not> P a" using Cons.prems(4) a by auto
    have "(k0, g0) \<in> set m" using Cons.prems(2) a False by auto
    moreover have "distinct (map fst m)" using Cons.prems(1) by simp
    moreover have "\<forall>(k, g)\<in>set m. P (k, g) \<longrightarrow> k = k0" using Cons.prems(4) by auto
    ultimately have "filter P m = [(k0, g0)]" using Cons.IH Cons.prems(3) by blast
    then show ?thesis using np by simp
  qed
qed

lemma free_span_one_line:
  assumes "s \<in> set free"
  shows "length (filter (\<lambda>(k, g). s \<in> set g) (lines_map c free)) = 1"
proof -
  let ?k = "nearest_index (y0 s) c"
  let ?g = "group_of c free ?k"
  have sg: "s \<in> set ?g" using assms by (simp add: group_of_def)
  then have "?g \<noteq> []" by auto
  then have "map_of (lines_map c free) ?k = Some ?g"
    using lines_map_facts [of c free] by simp
  then have mem: "(?k, ?g) \<in> set (lines_map c free)" by (rule map_of_SomeD)
  have uniq: "\<forall>(k, g)\<in>set (lines_map c free). (case (k, g) of (k, g) \<Rightarrow> s \<in> set g) \<longrightarrow> k = ?k"
  proof clarify
    fix k g assume "(k, g) \<in> set (lines_map c free)" and "s \<in> set g"
    then have "s \<in> set (group_of c free k)" using lines_map_entry(1) by blast
    then show "k = ?k" by (simp add: group_of_def)
  qed
  have d: "distinct (map fst (lines_map c free))" using lines_map_facts [of c free] by blast
  have "filter (\<lambda>(k, g). s \<in> set g) (lines_map c free) = [(?k, ?g)]"
    using d mem _ uniq by (rule filter_unique_key) (simp add: sg)
  then show ?thesis by simp
qed

lemma free_words_single_excluded:
  "regions_holding results w \<noteq> 0 \<Longrightarrow> free_words (retained_boxes results) [w] = []"
  by (simp add: regions_holding_zero Let_def)

text \<open>
  Claim C1, as amended. Every word of a page whose stripped text is not empty is in
  one of two cases, never both: its center lies in no retained table box (expanded by
  1), and then its span is a free word held by exactly one line group; or its center
  lies in at least one retained box (possibly several, since retained boxes may
  overlap), and then it yields no free word. The free words are exactly the spans of
  the words of the first case, in order, and the line groups hold each free word
  once.
\<close>

theorem token_partition_amended:
  assumes "w \<in> set words" and "strip (w_text w) \<noteq> []"
  shows "((regions_holding results w = 0 \<and> to_span w \<in> set (page_free results words)
           \<and> lines_holding results words w = 1)
          \<or> (1 \<le> regions_holding results w
              \<and> free_words (retained_boxes results) [w] = []))
         \<and> page_free results words =
             map to_span (filter (\<lambda>w. strip (w_text w) \<noteq> [] \<and> regions_holding results w = 0)
                            words)
         \<and> distinct (map fst (page_lines_map results words))
         \<and> mset (concat (map snd (page_lines_map results words)))
             = mset (page_free results words)"
proof -
  have "regions_holding results w = 0 \<Longrightarrow>
          to_span w \<in> set (page_free results words) \<and> lines_holding results words w = 1"
  proof -
    assume z: "regions_holding results w = 0"
    have m: "to_span w \<in> set (page_free results words)"
      unfolding page_free_filter using assms z by auto
    then have "lines_holding results words w = 1"
      unfolding lines_holding_def page_lines_map_def Let_def by (rule free_span_one_line)
    with m show ?thesis by simp
  qed
  moreover have "regions_holding results w \<noteq> 0 \<Longrightarrow>
          1 \<le> regions_holding results w \<and> free_words (retained_boxes results) [w] = []"
    using free_words_single_excluded [of results w] by simp
  moreover have "distinct (map fst (page_lines_map results words))"
    unfolding page_lines_map_def Let_def using lines_map_facts by blast
  moreover have "mset (concat (map snd (page_lines_map results words)))
             = mset (page_free results words)"
    unfolding page_lines_map_def Let_def by (rule lines_map_mset)
  ultimately show ?thesis using page_free_filter [of results words] by blast
qed

lemmas retained_eval =
  retained_boxes_def extract_tables_with_fallback_def strategy_tables_def dedup_step_def
  bbox_iou_def regions_holding_def lines_holding_def page_lines_map_def page_free_def
  to_span_def

theorem token_partition_amended_witness:
  "\<lparr>w_x0 = 400, w_y0 = 500, w_x1 = 440, w_y1 = 510, w_text = ''Total''\<rparr>
     \<in> set [\<lparr>w_x0 = 40, w_y0 = 40, w_x1 = 60, w_y1 = 60, w_text = ''cell''\<rparr>,
            \<lparr>w_x0 = 400, w_y0 = 500, w_x1 = 440, w_y1 = 510, w_text = ''Total''\<rparr>]
   \<and> strip (w_text \<lparr>w_x0 = 400, w_y0 = 500, w_x1 = 440, w_y1 = 510, w_text = ''Total''\<rparr>) \<noteq> []
   \<and> regions_holding
        [Some [\<lparr>bbox = (0, 0, 100, 100),
                extracted = Some [[Some ''a'', Some ''b''], [Some ''c'', Some ''d'']]\<rparr>]]
        \<lparr>w_x0 = 400, w_y0 = 500, w_x1 = 440, w_y1 = 510, w_text = ''Total''\<rparr> = 0
   \<and> lines_holding
        [Some [\<lparr>bbox = (0, 0, 100, 100),
                extracted = Some [[Some ''a'', Some ''b''], [Some ''c'', Some ''d'']]\<rparr>]]
        [\<lparr>w_x0 = 40, w_y0 = 40, w_x1 = 60, w_y1 = 60, w_text = ''cell''\<rparr>,
         \<lparr>w_x0 = 400, w_y0 = 500, w_x1 = 440, w_y1 = 510, w_text = ''Total''\<rparr>]
        \<lparr>w_x0 = 400, w_y0 = 500, w_x1 = 440, w_y1 = 510, w_text = ''Total''\<rparr> = 1"
proof -
  let ?r = "[Some [\<lparr>bbox = (0, 0, 100, 100),
                extracted = Some [[Some ''a'', Some ''b''], [Some ''c'', Some ''d'']]\<rparr>]]"
  let ?w = "\<lparr>w_x0 = 400, w_y0 = 500, w_x1 = 440, w_y1 = 510, w_text = ''Total''\<rparr>"
  let ?ws = "[\<lparr>w_x0 = 40, w_y0 = 40, w_x1 = 60, w_y1 = 60, w_text = ''cell''\<rparr>, ?w]"
  have h1: "?w \<in> set ?ws" by simp
  have h2: "strip (w_text ?w) \<noteq> []" by (simp add: strip_def isspace_def)
  have z: "regions_holding ?r ?w = 0"
    by (simp add: retained_eval page_eval)
  have "lines_holding ?r ?ws ?w = 1"
    using token_partition_amended [OF h1 h2, of ?r] z by simp
  with h1 h2 z show ?thesis by (simp only: simp_thms)
qed

text \<open>
  Claim C1, as the specification words it, fails on a page with two retained tables
  whose boxes overlap (intersection over union one third) and a blank word: the word
  \<open>cell\<close> lies in both table regions, and the blank word is in no line and in no
  region.
\<close>

theorem token_partition_counterexample:
  "\<not> accounted_once
       [Some [\<lparr>bbox = (0, 0, 100, 100),
               extracted = Some [[Some ''a'', Some ''b''], [Some ''c'', Some ''d'']]\<rparr>],
        Some [\<lparr>bbox = (0, 0, 100, 300),
               extracted = Some [[Some ''a'', Some ''b''], [Some ''c'', Some ''d'']]\<rparr>]]
       [\<lparr>w_x0 = 40, w_y0 = 40, w_x1 = 60, w_y1 = 60, w_text = ''cell''\<rparr>,
        \<lparr>w_x0 = 400, w_y0 = 400, w_x1 = 420, w_y1 = 410, w_text = ''  ''\<rparr>,
        \<lparr>w_x0 = 400, w_y0 = 500, w_x1 = 440, w_y1 = 510, w_text = ''Total''\<rparr>]
       \<lparr>w_x0 = 40, w_y0 = 40, w_x1 = 60, w_y1 = 60, w_text = ''cell''\<rparr>
   \<and> \<not> accounted_once
       [Some [\<lparr>bbox = (0, 0, 100, 100),
               extracted = Some [[Some ''a'', Some ''b''], [Some ''c'', Some ''d'']]\<rparr>],
        Some [\<lparr>bbox = (0, 0, 100, 300),
               extracted = Some [[Some ''a'', Some ''b''], [Some ''c'', Some ''d'']]\<rparr>]]
       [\<lparr>w_x0 = 40, w_y0 = 40, w_x1 = 60, w_y1 = 60, w_text = ''cell''\<rparr>,
        \<lparr>w_x0 = 400, w_y0 = 400, w_x1 = 420, w_y1 = 410, w_text = ''  ''\<rparr>,
        \<lparr>w_x0 = 400, w_y0 = 500, w_x1 = 440, w_y1 = 510, w_text = ''Total''\<rparr>]
       \<lparr>w_x0 = 400, w_y0 = 400, w_x1 = 420, w_y1 = 410, w_text = ''  ''\<rparr>"
proof -
  let ?r = "[Some [\<lparr>bbox = (0, 0, 100, 100),
               extracted = Some [[Some ''a'', Some ''b''], [Some ''c'', Some ''d'']]\<rparr>],
        Some [\<lparr>bbox = (0, 0, 100, 300),
               extracted = Some [[Some ''a'', Some ''b''], [Some ''c'', Some ''d'']]\<rparr>]]"
  let ?w1 = "\<lparr>w_x0 = 40, w_y0 = 40, w_x1 = 60, w_y1 = 60, w_text = ''cell''\<rparr>"
  let ?w2 = "\<lparr>w_x0 = 400, w_y0 = 400, w_x1 = 420, w_y1 = 410, w_text = ''  ''\<rparr>"
  let ?w3 = "\<lparr>w_x0 = 400, w_y0 = 500, w_x1 = 440, w_y1 = 510, w_text = ''Total''\<rparr>"
  have boxes: "retained_boxes ?r = [(0, 0, 100, 100), (0, 0, 100, 300)]"
    by (simp add: retained_eval page_eval)
  have r1: "regions_holding ?r ?w1 = 2"
    unfolding regions_holding_def boxes by (simp add: inside_table_def)
  have r2: "regions_holding ?r ?w2 = 0"
    unfolding regions_holding_def boxes by (simp add: inside_table_def)
  have free: "page_free ?r [?w1, ?w2, ?w3]
                = [\<lparr>x0 = 400, x1 = 440, y0 = 500, wtext = ''Total''\<rparr>]"
    unfolding page_free_def boxes by (simp add: inside_table_def strip_def isspace_def)
  have l2: "lines_holding ?r [?w1, ?w2, ?w3] ?w2 = 0"
    unfolding lines_holding_def page_lines_map_def free Let_def
    by (simp add: page_eval to_span_def)
  show ?thesis unfolding accounted_once_def r1 r2 l2 by simp
qed

subsection \<open>Facts about the sheet of a page\<close>






lemma free_words_append:
  "free_words boxes (a @ b) = free_words boxes a @ free_words boxes b"
  unfolding free_words_filter by simp

text \<open>
  Claim C10. A word whose text is empty or only white space is dropped before the
  words are divided between tables and lines, wherever it lies: removing the blank
  words from the input changes neither the free words, nor the elements, nor the sheet
  of the page, and every free word has a stripped text that is not empty, so no blank
  word is in a line or merged into another word.
\<close>

theorem blank_words_discarded:
  "free_words boxes (filter (\<lambda>w. strip (w_text w) \<noteq> []) words) = free_words boxes words
   \<and> page_elements raw (filter (\<lambda>w. strip (w_text w) \<noteq> []) words) = page_elements raw words
   \<and> page_sheet results (filter (\<lambda>w. strip (w_text w) \<noteq> []) words) = page_sheet results words
   \<and> (strip (w_text w) = [] \<longrightarrow>
         free_words boxes (before @ w # after) = free_words boxes (before @ after))
   \<and> (\<forall>s\<in>set (free_words boxes words). clean (wtext s))"
proof -
  have "strip (w_text w) = [] \<longrightarrow>
         free_words boxes (before @ w # after) = free_words boxes (before @ after)"
    by (simp add: free_words_append)
  moreover have "page_elements raw (filter (\<lambda>w. strip (w_text w) \<noteq> []) words)
                   = page_elements raw words"
    unfolding page_elements_eq free_words_drop_blank ..
  moreover have "page_sheet results (filter (\<lambda>w. strip (w_text w) \<noteq> []) words)
                   = page_sheet results words"
    unfolding page_sheet_def page_elements_eq free_words_drop_blank ..
  ultimately show ?thesis
    using free_words_drop_blank [of boxes words] free_words_clean [of _ boxes words] by blast
qed

theorem blank_words_discarded_witness:
  "strip (w_text \<lparr>w_x0 = 5, w_y0 = 5, w_x1 = 9, w_y1 = 9, w_text = '' ''\<rparr>) = []
   \<and> free_words [(0, 0, 100, 100)]
        ([] @ \<lparr>w_x0 = 5, w_y0 = 5, w_x1 = 9, w_y1 = 9, w_text = '' ''\<rparr>
            # [\<lparr>w_x0 = 400, w_y0 = 500, w_x1 = 440, w_y1 = 510, w_text = ''Total''\<rparr>])
       = [\<lparr>x0 = 400, x1 = 440, y0 = 500, wtext = ''Total''\<rparr>]
   \<and> list_all (\<lambda>s. clean (wtext s))
        (free_words [(0, 0, 100, 100)]
           [\<lparr>w_x0 = 400, w_y0 = 500, w_x1 = 440, w_y1 = 510, w_text = ''Total''\<rparr>])"
proof -
  let ?b = "\<lparr>w_x0 = 5, w_y0 = 5, w_x1 = 9, w_y1 = 9, w_text = '' ''\<rparr>"
  let ?t = "\<lparr>w_x0 = 400, w_y0 = 500, w_x1 = 440, w_y1 = 510, w_text = ''Total''\<rparr>"
  have h: "strip (w_text ?b) = []" by (simp add: strip_def isspace_def)
  note c = blank_words_discarded [of "[(0, 0, 100, 100)]" "[?t]" "[]" "[]" ?b "[]" "[?t]"]
  have e: "free_words [(0, 0, 100, 100)] ([] @ [?t])
             = [\<lparr>x0 = 400, x1 = 440, y0 = 500, wtext = ''Total''\<rparr>]"
    by (simp add: inside_table_def strip_def isspace_def)
  have "free_words [(0, 0, 100, 100)] ([] @ ?b # [?t]) = free_words [(0, 0, 100, 100)] ([] @ [?t])"
    using c h by blast
  then have d: "free_words [(0, 0, 100, 100)] ([] @ ?b # [?t])
                  = [\<lparr>x0 = 400, x1 = 440, y0 = 500, wtext = ''Total''\<rparr>]"
    unfolding e .
  have "\<forall>s\<in>set (free_words [(0, 0, 100, 100)] [?t]). clean (wtext s)"
    using c by blast
  then have a: "list_all (\<lambda>s. clean (wtext s)) (free_words [(0, 0, 100, 100)] [?t])"
    unfolding list_all_iff .
  from h d a show ?thesis by (simp only: simp_thms)
qed

end
